theory Spec2Isabelle
  imports Complex_Main "HOL-Library.Stream"
begin

section \<open>The skip list of \<open>src/skiplist.py\<close>\<close>

text \<open>
  The Python objects live in an explicit store: a node is a record, the store is the list
  of all nodes ever allocated, and a reference is an index into it. \<open>None\<close> as a reference
  is \<open>None :: addr option\<close>. A Python value is \<open>'v option\<close>, with \<open>None\<close> for Python's
  \<open>None\<close>; the key of the header is \<open>None\<close>, the key of a data node is \<open>Some k\<close> with
  \<open>k\<close> of a linearly ordered type. Levels and \<open>max_level\<close> are natural numbers: the
  source counts levels \<open>0..max_level\<close>.

  An operation that raises returns \<open>Inl\<close> of the exception, an operation whose loop does
  not end returns \<open>None\<close>; \<open>Some (Inr r)\<close> is the normal return of \<open>r\<close>. The error
  \<open>DanglingRef\<close> is the only one Python does not have: it stands for a reference that is
  no index of the store, which no Python object graph contains.
\<close>

type_synonym addr = nat

datatype error = IndexError | TypeError | AttributeError | KeyError | DanglingRef

type_synonym 'a result = "(error + 'a) option"

record ('k, 'v) node =
  key :: "'k option"
  val :: "'v option"
  forward :: "addr option list"

record ('k, 'v) skiplist =
  max_level :: nat
  p :: real
  level :: nat
  header :: addr
  heap :: "('k, 'v) node list"

subsection \<open>Sequencing of results\<close>

definition bind_err :: "error + 'a \<Rightarrow> ('a \<Rightarrow> error + 'b) \<Rightarrow> error + 'b" where
  "bind_err m f = (case m of Inl e \<Rightarrow> Inl e | Inr x \<Rightarrow> f x)"

definition bind_res :: "'a result \<Rightarrow> ('a \<Rightarrow> 'b result) \<Rightarrow> 'b result" where
  "bind_res m f = (case m of None \<Rightarrow> None | Some (Inl e) \<Rightarrow> Some (Inl e) | Some (Inr x) \<Rightarrow> f x)"

subsection \<open>Reads and writes of the store\<close>

text \<open>\<open>_Node.__init__\<close>: \<open>forward = [None] * (level + 1)\<close>.\<close>

definition new_node :: "nat \<Rightarrow> 'k option \<Rightarrow> 'v option \<Rightarrow> ('k, 'v) node" where
  "new_node lvl k v = \<lparr>key = k, val = v, forward = replicate (lvl + 1) None\<rparr>"

text \<open>\<open>x.forward[i]\<close>, with the \<open>IndexError\<close> of a list read out of range.\<close>

definition get_forward :: "('k, 'v) node list \<Rightarrow> addr \<Rightarrow> nat \<Rightarrow> error + addr option" where
  "get_forward h x i =
     (if x < length h then
        (if i < length (forward (h ! x)) then Inr (forward (h ! x) ! i) else Inl IndexError)
      else Inl DanglingRef)"

text \<open>\<open>x.forward[i] = y\<close>.\<close>

definition set_forward :: "('k, 'v) node list \<Rightarrow> addr \<Rightarrow> nat \<Rightarrow> addr option \<Rightarrow> error + ('k, 'v) node list" where
  "set_forward h x i y =
     (if x < length h then
        (if i < length (forward (h ! x))
         then Inr (h[x := (h ! x)\<lparr>forward := (forward (h ! x))[i := y]\<rparr>])
         else Inl IndexError)
      else Inl DanglingRef)"

text \<open>\<open>x.key < key\<close>: Python raises \<open>TypeError\<close> when \<open>x.key\<close> is \<open>None\<close>.\<close>

definition key_lt :: "('k::linorder, 'v) node list \<Rightarrow> addr \<Rightarrow> 'k \<Rightarrow> error + bool" where
  "key_lt h x k =
     (if x < length h then
        (case key (h ! x) of None \<Rightarrow> Inl TypeError | Some k' \<Rightarrow> Inr (k' < k))
      else Inl DanglingRef)"

text \<open>\<open>x.key == key\<close>: equality with \<open>None\<close> is \<open>False\<close>, it does not raise.\<close>

definition key_eq :: "('k, 'v) node list \<Rightarrow> addr \<Rightarrow> 'k \<Rightarrow> error + bool" where
  "key_eq h x k = (if x < length h then Inr (key (h ! x) = Some k) else Inl DanglingRef)"

definition get_val :: "('k, 'v) node list \<Rightarrow> addr \<Rightarrow> error + 'v option" where
  "get_val h x = (if x < length h then Inr (val (h ! x)) else Inl DanglingRef)"

definition get_key :: "('k, 'v) node list \<Rightarrow> addr \<Rightarrow> error + 'k option" where
  "get_key h x = (if x < length h then Inr (key (h ! x)) else Inl DanglingRef)"

text \<open>\<open>x.value = v\<close>.\<close>

definition set_val :: "('k, 'v) node list \<Rightarrow> addr \<Rightarrow> 'v option \<Rightarrow> error + ('k, 'v) node list" where
  "set_val h x v = (if x < length h then Inr (h[x := (h ! x)\<lparr>val := v\<rparr>]) else Inl DanglingRef)"

text \<open>
  \<open>update[i]\<close> read as a node: \<open>IndexError\<close> out of range, and \<open>AttributeError\<close> when the
  entry is still \<open>None\<close> and \<open>.forward\<close> is taken of it.
\<close>

definition get_update :: "addr option list \<Rightarrow> nat \<Rightarrow> error + addr" where
  "get_update upd i =
     (if i < length upd then (case upd ! i of None \<Rightarrow> Inl AttributeError | Some x \<Rightarrow> Inr x)
      else Inl IndexError)"

text \<open>\<open>update[i] = x\<close>.\<close>

definition set_update :: "addr option list \<Rightarrow> nat \<Rightarrow> addr \<Rightarrow> error + addr option list" where
  "set_update upd i x = (if i < length upd then Inr (upd[i := Some x]) else Inl IndexError)"

subsection \<open>Construction\<close>

text \<open>\<open>SkipList.__init__\<close>: the header is the first node of the store.\<close>

definition init :: "nat \<Rightarrow> real \<Rightarrow> ('k, 'v) skiplist" where
  "init ml pr = \<lparr>max_level = ml, p = pr, level = 0, header = 0, heap = [new_node ml None None]\<rparr>"

subsection \<open>The level generator\<close>

text \<open>
  \<open>_random_level\<close>. The randomness source is the stream of the values that the calls of
  \<open>random.random()\<close> return; the function gives the level and the rest of the stream. The
  draw is the left operand of \<open>and\<close>, so every test of the loop condition takes one.
\<close>

function random_level_loop :: "('k, 'v) skiplist \<Rightarrow> nat \<Rightarrow> real stream \<Rightarrow> nat \<times> real stream" where
  "random_level_loop s lvl rnd =
     (if shd rnd < p s \<and> lvl < max_level s
      then random_level_loop s (lvl + 1) (stl rnd)
      else (lvl, stl rnd))"
  by pat_completeness auto
termination
  by (relation "measure (\<lambda>(s, lvl, rnd). max_level s - lvl)") auto

declare random_level_loop.simps [simp del]

definition random_level :: "('k, 'v) skiplist \<Rightarrow> real stream \<Rightarrow> nat \<times> real stream" where
  "random_level s rnd = random_level_loop s 0 rnd"

subsection \<open>The predecessor scan\<close>

text \<open>
  The inner loop \<open>while x.forward[i] and x.forward[i].key < key: x = x.forward[i]\<close>.
  On a cyclic store it need not end.
\<close>

partial_function (option) walk :: "('k::linorder, 'v) node list \<Rightarrow> nat \<Rightarrow> 'k \<Rightarrow> addr \<Rightarrow> addr result" where
  "walk h i k x =
     (case get_forward h x i of
        Inl e \<Rightarrow> Some (Inl e)
      | Inr None \<Rightarrow> Some (Inr x)
      | Inr (Some y) \<Rightarrow>
          (case key_lt h y k of
             Inl e \<Rightarrow> Some (Inl e)
           | Inr b \<Rightarrow> if b then walk h i k y else Some (Inr x)))"

text \<open>
  \<open>_find_updates\<close>: the loop \<open>for i in range(self.level, -1, -1)\<close>; the counter \<open>Suc i\<close>
  is the number of levels still to scan, \<open>i\<close> the level scanned.
\<close>

fun find_updates_loop ::
  "('k::linorder, 'v) node list \<Rightarrow> 'k \<Rightarrow> nat \<Rightarrow> addr \<Rightarrow> addr option list \<Rightarrow> addr option list result" where
  "find_updates_loop h k 0 x upd = Some (Inr upd)"
| "find_updates_loop h k (Suc i) x upd =
     bind_res (walk h i k x) (\<lambda>x'.
       case set_update upd i x' of
         Inl e \<Rightarrow> Some (Inl e)
       | Inr upd' \<Rightarrow> find_updates_loop h k i x' upd')"

definition find_updates :: "'k::linorder \<Rightarrow> ('k, 'v) skiplist \<Rightarrow> addr option list result" where
  "find_updates k s =
     find_updates_loop (heap s) k (level s + 1) (header s) (replicate (max_level s + 1) None)"

subsection \<open>Search\<close>

fun search_loop :: "('k::linorder, 'v) node list \<Rightarrow> 'k \<Rightarrow> nat \<Rightarrow> addr \<Rightarrow> addr result" where
  "search_loop h k 0 x = Some (Inr x)"
| "search_loop h k (Suc i) x = bind_res (walk h i k x) (\<lambda>x'. search_loop h k i x')"

text \<open>\<open>x and x.key == key\<close> for a reference \<open>x\<close>: a node object is always true.\<close>

definition is_key :: "('k, 'v) node list \<Rightarrow> addr option \<Rightarrow> 'k \<Rightarrow> error + bool" where
  "is_key h x k = (case x of None \<Rightarrow> Inr False | Some a \<Rightarrow> key_eq h a k)"

definition search :: "'k::linorder \<Rightarrow> ('k, 'v) skiplist \<Rightarrow> 'v option result" where
  "search k s =
     bind_res (search_loop (heap s) k (level s + 1) (header s)) (\<lambda>x.
       Some (bind_err (get_forward (heap s) x 0) (\<lambda>y.
         bind_err (is_key (heap s) y k) (\<lambda>b.
           if b then get_val (heap s) (the y) else Inr None))))"

subsection \<open>Insert\<close>

text \<open>The loop \<open>for i in range(self.level + 1, new_level + 1): update[i] = self.header\<close>.\<close>

fun extend_updates :: "addr \<Rightarrow> nat list \<Rightarrow> addr option list \<Rightarrow> error + addr option list" where
  "extend_updates hdr [] upd = Inr upd"
| "extend_updates hdr (i # js) upd = bind_err (set_update upd i hdr) (extend_updates hdr js)"

text \<open>
  One round of the splice loop:
  \<open>x.forward[i] = update[i].forward[i]; update[i].forward[i] = x\<close>.
\<close>

definition splice_at ::
  "addr \<Rightarrow> addr option list \<Rightarrow> nat \<Rightarrow> ('k, 'v) node list \<Rightarrow> error + ('k, 'v) node list" where
  "splice_at x upd i h =
     bind_err (get_update upd i) (\<lambda>u.
       bind_err (get_forward h u i) (\<lambda>y.
         bind_err (set_forward h x i y) (\<lambda>h'.
           bind_err (get_update upd i) (\<lambda>u'.
             set_forward h' u' i (Some x)))))"

text \<open>The loop \<open>for i in range(new_level + 1)\<close>.\<close>

fun splice ::
  "addr \<Rightarrow> addr option list \<Rightarrow> nat list \<Rightarrow> ('k, 'v) node list \<Rightarrow> error + ('k, 'v) node list" where
  "splice x upd [] h = Inr h"
| "splice x upd (i # js) h = bind_err (splice_at x upd i h) (splice x upd js)"

text \<open>
  \<open>insert\<close>; it takes the randomness source and returns what is left of it with the new
  state. The new node is allocated at the end of the store.
\<close>

definition insert_sl ::
  "'k::linorder \<Rightarrow> 'v option \<Rightarrow> real stream \<Rightarrow> ('k, 'v) skiplist \<Rightarrow> (('k, 'v) skiplist \<times> real stream) result" where
  "insert_sl k v rnd s =
     bind_res (find_updates k s) (\<lambda>upd. Some (
       bind_err (get_update upd 0) (\<lambda>u.
         bind_err (get_forward (heap s) u 0) (\<lambda>x.
           bind_err (is_key (heap s) x k) (\<lambda>b.
             if b then
               bind_err (set_val (heap s) (the x) v) (\<lambda>h'. Inr (s\<lparr>heap := h'\<rparr>, rnd))
             else
               (let (new_level, rnd') = random_level s rnd in
                bind_err
                  (if new_level > level s
                   then extend_updates (header s) [level s + 1 ..< new_level + 1] upd
                   else Inr upd) (\<lambda>upd'.
                  let lvl' = (if new_level > level s then new_level else level s);
                      x' = length (heap s);
                      h0 = heap s @ [new_node new_level (Some k) v]
                  in bind_err (splice x' upd' [0 ..< new_level + 1] h0) (\<lambda>h'.
                       Inr (s\<lparr>level := lvl', heap := h'\<rparr>, rnd')))))))))"

subsection \<open>Delete\<close>

text \<open>
  One round of the unlink loop:
  \<open>if update[i].forward[i] is x: update[i].forward[i] = x.forward[i]\<close>.
\<close>

definition unlink_at ::
  "addr \<Rightarrow> addr option list \<Rightarrow> nat \<Rightarrow> ('k, 'v) node list \<Rightarrow> error + ('k, 'v) node list" where
  "unlink_at x upd i h =
     bind_err (get_update upd i) (\<lambda>u.
       bind_err (get_forward h u i) (\<lambda>y.
         if y = Some x
         then bind_err (get_forward h x i) (\<lambda>z. set_forward h u i z)
         else Inr h))"

text \<open>The loop \<open>for i in range(self.level + 1)\<close>.\<close>

fun unlink ::
  "addr \<Rightarrow> addr option list \<Rightarrow> nat list \<Rightarrow> ('k, 'v) node list \<Rightarrow> error + ('k, 'v) node list" where
  "unlink x upd [] h = Inr h"
| "unlink x upd (i # js) h = bind_err (unlink_at x upd i h) (unlink x upd js)"

text \<open>
  The loop \<open>while self.level > 0 and self.header.forward[self.level] is None:
  self.level -= 1\<close>; the result is the level it stops at.
\<close>

fun shrink_level :: "('k, 'v) node list \<Rightarrow> addr \<Rightarrow> nat \<Rightarrow> error + nat" where
  "shrink_level h hdr 0 = Inr 0"
| "shrink_level h hdr (Suc l) =
     bind_err (get_forward h hdr (Suc l)) (\<lambda>y.
       if y = None then shrink_level h hdr l else Inr (Suc l))"

definition delete :: "'k::linorder \<Rightarrow> ('k, 'v) skiplist \<Rightarrow> (bool \<times> ('k, 'v) skiplist) result" where
  "delete k s =
     bind_res (find_updates k s) (\<lambda>upd. Some (
       bind_err (get_update upd 0) (\<lambda>u.
         bind_err (get_forward (heap s) u 0) (\<lambda>x.
           bind_err (is_key (heap s) x k) (\<lambda>b.
             if \<not> b then Inr (False, s)
             else
               bind_err (unlink (the x) upd [0 ..< level s + 1] (heap s)) (\<lambda>h'.
                 bind_err (shrink_level h' (header s) (level s)) (\<lambda>lvl'.
                   Inr (True, s\<lparr>level := lvl', heap := h'\<rparr>))))))))"

subsection \<open>The container methods\<close>

text \<open>\<open>__contains__\<close>: \<open>self.search(key) is not None\<close>.\<close>

definition contains :: "'k::linorder \<Rightarrow> ('k, 'v) skiplist \<Rightarrow> bool result" where
  "contains k s = bind_res (search k s) (\<lambda>v. Some (Inr (v \<noteq> None)))"

text \<open>\<open>__setitem__\<close>.\<close>

definition setitem ::
  "'k::linorder \<Rightarrow> 'v option \<Rightarrow> real stream \<Rightarrow> ('k, 'v) skiplist \<Rightarrow> (('k, 'v) skiplist \<times> real stream) result" where
  "setitem k v rnd s = insert_sl k v rnd s"

text \<open>\<open>__getitem__\<close>.\<close>

definition getitem :: "'k::linorder \<Rightarrow> ('k, 'v) skiplist \<Rightarrow> 'v option result" where
  "getitem k s = bind_res (search k s) (\<lambda>v. if v = None then Some (Inl KeyError) else Some (Inr v))"

text \<open>\<open>__delitem__\<close>; the result is the state after the call.\<close>

definition delitem :: "'k::linorder \<Rightarrow> ('k, 'v) skiplist \<Rightarrow> ('k, 'v) skiplist result" where
  "delitem k s =
     bind_res (delete k s) (\<lambda>(b, s'). if \<not> b then Some (Inl KeyError) else Some (Inr s'))"

text \<open>\<open>__len__\<close>: the loop \<open>while x: cnt += 1; x = x.forward[0]\<close>.\<close>

partial_function (option) len_loop :: "('k, 'v) node list \<Rightarrow> nat \<Rightarrow> addr option \<Rightarrow> nat result" where
  "len_loop h cnt x =
     (case x of
        None \<Rightarrow> Some (Inr cnt)
      | Some a \<Rightarrow>
          (case get_forward h a 0 of
             Inl e \<Rightarrow> Some (Inl e)
           | Inr y \<Rightarrow> len_loop h (cnt + 1) y))"

definition len :: "('k, 'v) skiplist \<Rightarrow> nat result" where
  "len s =
     (case get_forward (heap s) (header s) 0 of
        Inl e \<Rightarrow> Some (Inl e)
      | Inr x \<Rightarrow> len_loop (heap s) 0 x)"

text \<open>
  \<open>display\<close>, as the list \<open>elems\<close> it prints: the loop
  \<open>while x: elems.append((x.key, x.value)); x = x.forward[0]\<close>.
\<close>

partial_function (option) display_loop ::
  "('k, 'v) node list \<Rightarrow> ('k option \<times> 'v option) list \<Rightarrow> addr option \<Rightarrow> ('k option \<times> 'v option) list result" where
  "display_loop h elems x =
     (case x of
        None \<Rightarrow> Some (Inr elems)
      | Some a \<Rightarrow>
          (case bind_err (get_key h a) (\<lambda>k. bind_err (get_val h a) (\<lambda>v.
                  bind_err (get_forward h a 0) (\<lambda>y. Inr (elems @ [(k, v)], y)))) of
             Inl e \<Rightarrow> Some (Inl e)
           | Inr (elems', y) \<Rightarrow> display_loop h elems' y))"

definition display :: "('k, 'v) skiplist \<Rightarrow> ('k option \<times> 'v option) list result" where
  "display s =
     (case get_forward (heap s) (header s) 0 of
        Inl e \<Rightarrow> Some (Inl e)
      | Inr x \<Rightarrow> display_loop (heap s) [] x)"

section \<open>The abstraction\<close>

abbreviation ht :: "('k, 'v) node list \<Rightarrow> addr \<Rightarrow> nat" where
  "ht h a \<equiv> length (forward (h ! a))"

abbreviation nxt :: "('k, 'v) node list \<Rightarrow> nat \<Rightarrow> addr \<Rightarrow> addr option" where
  "nxt h i a \<equiv> forward (h ! a) ! i"

fun chain :: "('k, 'v) node list \<Rightarrow> nat \<Rightarrow> addr option \<Rightarrow> addr list \<Rightarrow> addr option \<Rightarrow> bool" where
  "chain h i x [] y = (x = y)"
| "chain h i x (a # xs) y =
     (x = Some a \<and> a < length h \<and> i < ht h a \<and> chain h i (nxt h i a) xs y)"

abbreviation keyof :: "('k, 'v) node list \<Rightarrow> addr \<Rightarrow> 'k" where
  "keyof h a \<equiv> the (key (h ! a))"

definition lane :: "('k, 'v) node list \<Rightarrow> nat \<Rightarrow> addr list \<Rightarrow> addr list" where
  "lane h i xs = filter (\<lambda>a. i < ht h a) xs"

definition rep :: "('k::linorder, 'v) skiplist \<Rightarrow> addr list \<Rightarrow> bool" where
  "rep s xs \<longleftrightarrow>
     level s \<le> max_level s \<and>
     header s < length (heap s) \<and>
     ht (heap s) (header s) = max_level s + 1 \<and>
     header s \<notin> set xs \<and>
     (\<forall>a\<in>set xs. a < length (heap s) \<and> key (heap s ! a) \<noteq> None \<and>
        0 < ht (heap s) a \<and> ht (heap s) a \<le> level s + 1) \<and>
     sorted_wrt (<) (map (keyof (heap s)) xs) \<and>
     (\<forall>i\<le>max_level s. chain (heap s) i (nxt (heap s) i (header s)) (lane (heap s) i xs) None) \<and>
     (0 < level s \<longrightarrow> (\<exists>a\<in>set xs. level s < ht (heap s) a))"

definition pred_at :: "('k, 'v) skiplist \<Rightarrow> addr list \<Rightarrow> nat \<Rightarrow> addr" where
  "pred_at s lo i = last (header s # lane (heap s) i lo)"

definition updates :: "('k, 'v) skiplist \<Rightarrow> addr list \<Rightarrow> nat \<Rightarrow> addr option list" where
  "updates s lo n = map (\<lambda>i. if i < n then Some (pred_at s lo i) else None) [0 ..< max_level s + 1]"

definition same_shape :: "('k, 'v) node list \<Rightarrow> ('k, 'v) node list \<Rightarrow> bool" where
  "same_shape h h' \<longleftrightarrow>
     length h' = length h \<and>
     (\<forall>b. key (h' ! b) = key (h ! b) \<and> val (h' ! b) = val (h ! b) \<and> ht h' b = ht h b)"

definition items :: "('k, 'v) node list \<Rightarrow> addr list \<Rightarrow> ('k option \<times> 'v option) list" where
  "items h xs = map (\<lambda>a. (key (h ! a), val (h ! a))) xs"

text \<open>
  The states of a skip list: those that \<open>insert\<close> and \<open>delete\<close> produce from a new one.
  \<open>__setitem__\<close> is \<open>insert\<close>, and \<open>__delitem__\<close> changes the state as \<open>delete\<close> does, so they
  reach no further state.
\<close>

inductive reachable :: "('k::linorder, 'v) skiplist \<Rightarrow> bool" where
  reach_init: "reachable (init ml pr)"
| reach_insert: "reachable s \<Longrightarrow> insert_sl k v rnd s = Some (Inr (s', rnd')) \<Longrightarrow> reachable s'"
| reach_delete: "reachable s \<Longrightarrow> delete k s = Some (Inr (b, s')) \<Longrightarrow> reachable s'"

text \<open>
  \<open>lane_at s i xs\<close>: following \<open>forward[i]\<close> from the header visits the nodes \<open>xs\<close>, in this
  order, and then reaches \<open>None\<close>.
\<close>

definition lane_at :: "('k, 'v) skiplist \<Rightarrow> nat \<Rightarrow> addr list \<Rightarrow> bool" where
  "lane_at s i xs =
     (case get_forward (heap s) (header s) i of
        Inl e \<Rightarrow> False
      | Inr y \<Rightarrow> chain (heap s) i y xs None)"

text \<open>The pairs \<open>(key, value)\<close> linked at level 0, as \<open>display\<close> lists them.\<close>

definition entries :: "('k, 'v) skiplist \<Rightarrow> ('k option \<times> 'v option) list" where
  "entries s = (case display s of Some (Inr es) \<Rightarrow> es | _ \<Rightarrow> [])"

text \<open>A key is present when a node with this key is linked at level 0.\<close>

definition linked :: "'k \<Rightarrow> ('k, 'v) skiplist \<Rightarrow> bool" where
  "linked k s \<longleftrightarrow> Some k \<in> fst ` set (entries s)"

text \<open>Example states: one key, two keys of different heights, the second of them alone, and a
  key stored with the value \<open>None\<close>.\<close>

definition ex_one :: "(nat, nat) skiplist" where
  "ex_one = \<lparr>max_level = 1, p = 1 / 2, level = 1, header = 0,
     heap = [\<lparr>key = None, val = None, forward = [Some 1, Some 1]\<rparr>,
             \<lparr>key = Some 5, val = Some 50, forward = [None, None]\<rparr>]\<rparr>"

definition ex_two :: "(nat, nat) skiplist" where
  "ex_two = \<lparr>max_level = 1, p = 1 / 2, level = 1, header = 0,
     heap = [\<lparr>key = None, val = None, forward = [Some 1, Some 1]\<rparr>,
             \<lparr>key = Some 5, val = Some 50, forward = [Some 2, None]\<rparr>,
             \<lparr>key = Some 7, val = Some 70, forward = [None]\<rparr>]\<rparr>"

definition ex_two_del :: "(nat, nat) skiplist" where
  "ex_two_del = \<lparr>max_level = 1, p = 1 / 2, level = 0, header = 0,
     heap = [\<lparr>key = None, val = None, forward = [Some 2, None]\<rparr>,
             \<lparr>key = Some 5, val = Some 50, forward = [Some 2, None]\<rparr>,
             \<lparr>key = Some 7, val = Some 70, forward = [None]\<rparr>]\<rparr>"

definition ex_none :: "(nat, nat) skiplist" where
  "ex_none = \<lparr>max_level = 1, p = 1 / 2, level = 0, header = 0,
     heap = [\<lparr>key = None, val = None, forward = [Some 1, None]\<rparr>,
             \<lparr>key = Some 5, val = None, forward = [None]\<rparr>]\<rparr>"

section \<open>Properties\<close>

lemma bind_err_simps [simp]:
  "bind_err (Inl e) f = Inl e" "bind_err (Inr x) f = f x"
  by (simp_all add: bind_err_def)

lemma bind_res_simps [simp]:
  "bind_res None g = None" "bind_res (Some (Inl e)) g = Some (Inl e)" "bind_res (Some (Inr x)) g = g x"
  by (simp_all add: bind_res_def)

lemma chain_append:
  "chain h i x (xs @ ys) z \<longleftrightarrow> (\<exists>y. chain h i x xs y \<and> chain h i y ys z)"
  by (induction xs arbitrary: x) auto

lemma chain_unique:
  "chain h i x xs None \<Longrightarrow> chain h i x ys None \<Longrightarrow> xs = ys"
proof (induction xs arbitrary: x ys)
  case Nil
  then show ?case by (cases ys) auto
next
  case (Cons a xs)
  then show ?case by (cases ys) auto
qed

lemma chain_frame:
  "chain h i x xs y \<Longrightarrow>
   (\<forall>a\<in>set xs. a < length h \<longrightarrow> a < length h' \<and> ht h' a = ht h a \<and> nxt h' i a = nxt h i a) \<Longrightarrow>
   chain h' i x xs y"
  by (induction xs arbitrary: x) auto

lemma walk_chain:
  assumes "chain h i (Some x) (x # bs) y"
    and "\<forall>b\<in>set bs. \<exists>kb. key (h ! b) = Some kb \<and> kb < k"
    and "y = None \<or> (\<exists>b kb. y = Some b \<and> b < length h \<and> key (h ! b) = Some kb \<and> \<not> kb < k)"
  shows "walk h i k x = Some (Inr (last (x # bs)))"
  using assms
proof (induction bs arbitrary: x)
  case Nil
  then show ?case
    by (subst walk.simps) (auto simp: get_forward_def key_lt_def)
next
  case (Cons b bs)
  from Cons.prems have step: "x < length h" "i < ht h x" "nxt h i x = Some b"
    and rest: "chain h i (Some b) (b # bs) y" by auto
  from Cons.prems obtain kb where kb: "key (h ! b) = Some kb" "kb < k" by auto
  from rest have "b < length h" by simp
  have "walk h i k x = walk h i k b"
    by (subst walk.simps) (simp add: get_forward_def key_lt_def step kb \<open>b < length h\<close>)
  also have "\<dots> = Some (Inr (last (b # bs)))"
    using Cons.IH [OF rest] Cons.prems(2,3) by simp
  finally show ?case by simp
qed

lemma lane_append [simp]: "lane h i (xs @ ys) = lane h i xs @ lane h i ys"
  by (simp add: lane_def)

lemma lane_subset: "set (lane h i xs) \<subseteq> set xs"
  by (auto simp: lane_def)

lemma lane_Suc_subset: "set (lane h (Suc i) xs) \<subseteq> set (lane h i xs)"
  by (auto simp: lane_def)

lemma rep_chain:
  assumes "rep s xs" "i \<le> max_level s"
  shows "chain (heap s) i (Some (header s)) (header s # lane (heap s) i xs) None"
  using assms by (simp add: rep_def)

lemma split_after_member:
  assumes "x \<in> set (a # ys)"
  shows "\<exists>c1 c2. a # ys = c1 @ x # c2 \<and> set c2 \<subseteq> set ys"
proof -
  from assms obtain c1 c2 where eq: "a # ys = c1 @ x # c2"
    by (meson split_list)
  show ?thesis
  proof (cases c1)
    case Nil
    with eq show ?thesis by auto
  next
    case (Cons c cs)
    with eq have "ys = cs @ x # c2" by simp
    then have "set c2 \<subseteq> set ys" by auto
    with eq show ?thesis by blast
  qed
qed

lemma chain_start:
  assumes "chain h i y ys None"
    and "\<forall>b\<in>set ys. \<exists>kb. key (h ! b) = Some kb \<and> \<not> kb < k"
  shows "y = None \<or> (\<exists>b kb. y = Some b \<and> b < length h \<and> key (h ! b) = Some kb \<and> \<not> kb < k)"
  using assms by (cases ys) auto

lemma pred_at_mem: "pred_at s lo (Suc i) \<in> set (header s # lane (heap s) i lo)"
proof -
  have "pred_at s lo (Suc i) \<in> set (header s # lane (heap s) (Suc i) lo)"
    unfolding pred_at_def by (rule last_in_set) simp
  with lane_Suc_subset [of "heap s" i lo] show ?thesis by auto
qed

lemma walk_pred:
  assumes r: "rep s (lo @ hi)"
    and lo: "\<forall>a\<in>set lo. keyof (heap s) a < k"
    and hi: "\<forall>a\<in>set hi. \<not> keyof (heap s) a < k"
    and i: "i \<le> level s"
  shows "walk (heap s) i k (pred_at s lo (Suc i)) = Some (Inr (pred_at s lo i))"
proof -
  let ?h = "heap s"
  from r i have im: "i \<le> max_level s" by (simp add: rep_def)
  from r have keys: "\<forall>a\<in>set (lo @ hi). key (?h ! a) \<noteq> None" by (simp add: rep_def)
  from rep_chain [OF r im]
  have full: "chain ?h i (Some (header s)) ((header s # lane ?h i lo) @ lane ?h i hi) None"
    by simp
  from split_after_member [OF pred_at_mem [of s lo i]]
  obtain c1 c2 where eq: "header s # lane ?h i lo = c1 @ pred_at s lo (Suc i) # c2"
    and c2: "set c2 \<subseteq> set (lane ?h i lo)" by blast
  from full obtain y where
    pre: "chain ?h i (Some (header s)) (c1 @ pred_at s lo (Suc i) # c2) y"
    and post: "chain ?h i y (lane ?h i hi) None"
    unfolding chain_append eq by blast
  from pre obtain z where z: "chain ?h i z (pred_at s lo (Suc i) # c2) y"
    unfolding chain_append by blast
  then have seg: "chain ?h i (Some (pred_at s lo (Suc i))) (pred_at s lo (Suc i) # c2) y"
    by simp
  have small: "\<forall>b\<in>set c2. \<exists>kb. key (?h ! b) = Some kb \<and> kb < k"
  proof
    fix b assume "b \<in> set c2"
    with c2 lane_subset have b: "b \<in> set lo" by fastforce
    with keys obtain kb where "key (?h ! b) = Some kb" by auto
    with lo b show "\<exists>kb. key (?h ! b) = Some kb \<and> kb < k" by force
  qed
  have big: "\<forall>b\<in>set (lane ?h i hi). \<exists>kb. key (?h ! b) = Some kb \<and> \<not> kb < k"
  proof
    fix b assume "b \<in> set (lane ?h i hi)"
    with lane_subset have b: "b \<in> set hi" by fastforce
    with keys obtain kb where "key (?h ! b) = Some kb" by auto
    with hi b show "\<exists>kb. key (?h ! b) = Some kb \<and> \<not> kb < k" by force
  qed
  have "walk ?h i k (pred_at s lo (Suc i)) = Some (Inr (last (pred_at s lo (Suc i) # c2)))"
    by (rule walk_chain [OF seg small chain_start [OF post big]])
  also have "last (pred_at s lo (Suc i) # c2) = last (c1 @ pred_at s lo (Suc i) # c2)"
    by simp
  also have "\<dots> = last (header s # lane ?h i lo)"
    using eq by simp
  also have "\<dots> = pred_at s lo i"
    by (simp add: pred_at_def)
  finally show ?thesis .
qed

lemma find_updates_loop_rep:
  assumes r: "rep s (lo @ hi)"
    and lo: "\<forall>a\<in>set lo. keyof (heap s) a < k"
    and hi: "\<forall>a\<in>set hi. \<not> keyof (heap s) a < k"
  shows "n \<le> level s + 1 \<Longrightarrow> length upd = max_level s + 1 \<Longrightarrow>
    find_updates_loop (heap s) k n (pred_at s lo n) upd =
      Some (Inr (map (\<lambda>i. if i < n then Some (pred_at s lo i) else upd ! i) [0 ..< max_level s + 1]))"
proof (induction n arbitrary: upd)
  case 0
  then have "map (\<lambda>i. upd ! i) [0 ..< max_level s + 1] = upd"
    by (metis map_nth)
  then show ?case by simp
next
  case (Suc n)
  from r have lm: "level s \<le> max_level s" by (simp add: rep_def)
  from Suc.prems lm have n: "n \<le> level s" "n < length upd" by auto
  have w: "walk (heap s) n k (pred_at s lo (Suc n)) = Some (Inr (pred_at s lo n))"
    by (rule walk_pred [OF r lo hi n(1)])
  have "find_updates_loop (heap s) k (Suc n) (pred_at s lo (Suc n)) upd =
        find_updates_loop (heap s) k n (pred_at s lo n) (upd[n := Some (pred_at s lo n)])"
    by (simp add: w set_update_def n)
  also have "\<dots> = Some (Inr (map (\<lambda>i. if i < n then Some (pred_at s lo i)
                  else upd[n := Some (pred_at s lo n)] ! i) [0 ..< max_level s + 1]))"
    using Suc.prems n by (intro Suc.IH) auto
  also have "map (\<lambda>i. if i < n then Some (pred_at s lo i)
                  else upd[n := Some (pred_at s lo n)] ! i) [0 ..< max_level s + 1] =
             map (\<lambda>i. if i < Suc n then Some (pred_at s lo i) else upd ! i) [0 ..< max_level s + 1]"
    using n Suc.prems by (intro map_cong) (auto simp: nth_list_update less_Suc_eq)
  finally show ?case .
qed

lemma find_updates_rep:
  assumes r: "rep s (lo @ hi)"
    and lo: "\<forall>a\<in>set lo. keyof (heap s) a < k"
    and hi: "\<forall>a\<in>set hi. \<not> keyof (heap s) a < k"
  shows "find_updates k s = Some (Inr (updates s lo (level s + 1)))"
proof -
  from r have "\<forall>a\<in>set lo. ht (heap s) a \<le> level s + 1" by (simp add: rep_def)
  then have "lane (heap s) (level s + 1) lo = []"
    by (auto simp: lane_def filter_empty_conv)
  then have start: "header s = pred_at s lo (level s + 1)" by (simp add: pred_at_def)
  have "find_updates k s = find_updates_loop (heap s) k (level s + 1) (pred_at s lo (level s + 1))
          (replicate (max_level s + 1) None)"
    unfolding find_updates_def using start by simp
  also have "\<dots> = Some (Inr (map (\<lambda>i. if i < level s + 1 then Some (pred_at s lo i)
       else replicate (max_level s + 1) None ! i) [0 ..< max_level s + 1]))"
    by (rule find_updates_loop_rep [OF r lo hi]) simp_all
  also have "map (\<lambda>i. if i < level s + 1 then Some (pred_at s lo i)
       else replicate (max_level s + 1) None ! i) [0 ..< max_level s + 1] = updates s lo (level s + 1)"
    unfolding updates_def by (intro map_cong) auto
  finally show ?thesis .
qed

lemma sorted_split:
  fixes f :: "'a \<Rightarrow> 'k::linorder"
  assumes "sorted_wrt (<) (map f xs)"
  shows "(\<exists>lo hi. xs = lo @ hi \<and> (\<forall>a\<in>set lo. f a < k) \<and> (\<forall>a\<in>set hi. k < f a)) \<or>
         (\<exists>lo b hi. xs = lo @ b # hi \<and> (\<forall>a\<in>set lo. f a < k) \<and> f b = k \<and> (\<forall>a\<in>set hi. k < f a))"
  using assms
proof (induction xs)
  case Nil
  then show ?case by simp
next
  case (Cons a xs)
  then have sx: "sorted_wrt (<) (map f xs)" and above: "\<forall>b\<in>set xs. f a < f b" by auto
  consider "f a < k" | "f a = k" | "k < f a" by (meson less_linear)
  then show ?case
  proof cases
    case 1
    from Cons.IH [OF sx] show ?thesis
    proof
      assume "\<exists>lo hi. xs = lo @ hi \<and> (\<forall>a\<in>set lo. f a < k) \<and> (\<forall>a\<in>set hi. k < f a)"
      then obtain lo hi where "xs = lo @ hi" "\<forall>a\<in>set lo. f a < k" "\<forall>a\<in>set hi. k < f a" by blast
      with 1 have "a # xs = (a # lo) @ hi \<and> (\<forall>a\<in>set (a # lo). f a < k) \<and> (\<forall>a\<in>set hi. k < f a)"
        by simp
      then show ?thesis by blast
    next
      assume "\<exists>lo b hi. xs = lo @ b # hi \<and> (\<forall>a\<in>set lo. f a < k) \<and> f b = k \<and> (\<forall>a\<in>set hi. k < f a)"
      then obtain lo b hi where "xs = lo @ b # hi" "\<forall>a\<in>set lo. f a < k" "f b = k" "\<forall>a\<in>set hi. k < f a"
        by blast
      with 1 have "a # xs = (a # lo) @ b # hi \<and> (\<forall>a\<in>set (a # lo). f a < k) \<and> f b = k \<and> (\<forall>a\<in>set hi. k < f a)"
        by simp
      then show ?thesis by blast
    qed
  next
    case 2
    with above have "a # xs = [] @ a # xs \<and> (\<forall>c\<in>set []. f c < k) \<and> f a = k \<and> (\<forall>c\<in>set xs. k < f c)"
      by simp
    then show ?thesis by blast
  next
    case 3
    with above have "\<forall>c\<in>set (a # xs). k < f c" by auto
    then have "a # xs = [] @ (a # xs) \<and> (\<forall>c\<in>set []. f c < k) \<and> (\<forall>c\<in>set (a # xs). k < f c)"
      by simp
    then show ?thesis by blast
  qed
qed

lemma rep_distinct:
  assumes "rep s xs"
  shows "distinct (header s # xs)"
proof -
  from assms have "sorted_wrt (<) (map (keyof (heap s)) xs)" by (simp add: rep_def)
  then have "distinct (map (keyof (heap s)) xs)" by (simp add: strict_sorted_iff)
  then have "distinct xs" by (simp add: distinct_map)
  with assms show ?thesis by (simp add: rep_def)
qed

lemma rep_key:
  assumes "rep s xs" "a \<in> set xs"
  shows "key (heap s ! a) = Some (keyof (heap s) a)"
  using assms by (auto simp: rep_def)

lemma lane_0:
  assumes "rep s xs" "set ys \<subseteq> set xs"
  shows "lane (heap s) 0 ys = ys"
  using assms by (auto simp: rep_def lane_def filter_id_conv)

text \<open>What the scan has found at level \<open>i\<close>.\<close>

lemma pred_next:
  assumes r: "rep s (lo @ hi)" and i: "i \<le> max_level s"
  shows "\<exists>c1. header s # lane (heap s) i lo = c1 @ [pred_at s lo i] \<and>
           chain (heap s) i (Some (header s)) c1 (Some (pred_at s lo i)) \<and>
           pred_at s lo i < length (heap s) \<and> i < ht (heap s) (pred_at s lo i) \<and>
           chain (heap s) i (nxt (heap s) i (pred_at s lo i)) (lane (heap s) i hi) None"
proof -
  let ?h = "heap s" and ?c = "header s # lane (heap s) i lo"
  have "?c = butlast ?c @ [pred_at s lo i]"
    unfolding pred_at_def by (rule append_butlast_last_id [symmetric]) simp
  then obtain c1 where eq: "?c = c1 @ [pred_at s lo i]" ..
  from rep_chain [OF r i]
  have "chain ?h i (Some (header s)) (?c @ lane ?h i hi) None" by simp
  then have "chain ?h i (Some (header s)) ((c1 @ [pred_at s lo i]) @ lane ?h i hi) None"
    by (simp only: eq)
  then have "chain ?h i (Some (header s)) c1 (Some (pred_at s lo i)) \<and>
           pred_at s lo i < length ?h \<and> i < ht ?h (pred_at s lo i) \<and>
           chain ?h i (nxt ?h i (pred_at s lo i)) (lane ?h i hi) None"
    unfolding chain_append by auto
  with eq show ?thesis by blast
qed

lemma pred_at_mem_lo: "pred_at s lo i \<in> set (header s # lo)"
proof -
  have "pred_at s lo i \<in> set (header s # lane (heap s) i lo)"
    unfolding pred_at_def by (rule last_in_set) simp
  with lane_subset [of "heap s" i lo] show ?thesis by auto
qed

lemma get_update_updates:
  "i < n \<Longrightarrow> i \<le> max_level s \<Longrightarrow> get_update (updates s lo n) i = Inr (pred_at s lo i)"
  by (simp add: get_update_def updates_def del: upt_Suc)

lemma probe_rep:
  assumes r: "rep s (lo @ hi)"
  shows "get_forward (heap s) (pred_at s lo 0) 0 = Inr (case hi of [] \<Rightarrow> None | b # _ \<Rightarrow> Some b)"
proof -
  from pred_next [OF r, of 0]
  have b: "pred_at s lo 0 < length (heap s)" "0 < ht (heap s) (pred_at s lo 0)"
    and c: "chain (heap s) 0 (nxt (heap s) 0 (pred_at s lo 0)) (lane (heap s) 0 hi) None"
    by auto
  from lane_0 [OF r, of hi] c
  have "chain (heap s) 0 (nxt (heap s) 0 (pred_at s lo 0)) hi None" by simp
  then have "nxt (heap s) 0 (pred_at s lo 0) = (case hi of [] \<Rightarrow> None | b # _ \<Rightarrow> Some b)"
    by (cases hi) auto
  with b show ?thesis by (simp add: get_forward_def)
qed

lemma search_loop_rep:
  assumes r: "rep s (lo @ hi)"
    and lo: "\<forall>a\<in>set lo. keyof (heap s) a < k"
    and hi: "\<forall>a\<in>set hi. \<not> keyof (heap s) a < k"
  shows "n \<le> level s + 1 \<Longrightarrow>
    search_loop (heap s) k n (pred_at s lo n) = Some (Inr (pred_at s lo 0))"
proof (induction n)
  case 0
  then show ?case by simp
next
  case (Suc n)
  then have "walk (heap s) n k (pred_at s lo (Suc n)) = Some (Inr (pred_at s lo n))"
    by (intro walk_pred [OF r lo hi]) simp
  with Suc show ?case by simp
qed

lemma pred_at_top:
  assumes r: "rep s (lo @ hi)" and i: "level s < i"
  shows "pred_at s lo i = header s"
proof -
  from r have "\<forall>a\<in>set lo. ht (heap s) a \<le> level s + 1" by (simp add: rep_def)
  with i have "lane (heap s) i lo = []"
    by (auto simp: lane_def filter_empty_conv)
  then show ?thesis by (simp add: pred_at_def)
qed

lemma search_rep:
  assumes r: "rep s (lo @ hi)"
    and lo: "\<forall>a\<in>set lo. keyof (heap s) a < k"
    and hi: "\<forall>a\<in>set hi. \<not> keyof (heap s) a < k"
  shows "search k s = Some (Inr (case hi of [] \<Rightarrow> None
           | b # _ \<Rightarrow> if keyof (heap s) b = k then val (heap s ! b) else None))"
proof -
  have "search_loop (heap s) k (level s + 1) (header s) = Some (Inr (pred_at s lo 0))"
    using search_loop_rep [OF r lo hi, of "level s + 1"] pred_at_top [OF r, of "level s + 1"]
    by simp
  moreover have "\<And>b. b \<in> set hi \<Longrightarrow> b < length (heap s) \<and> key (heap s ! b) = Some (keyof (heap s) b)"
    using r by (auto simp: rep_def)
  ultimately show ?thesis
    by (cases hi) (auto simp: search_def probe_rep [OF r] is_key_def key_eq_def get_val_def)
qed

lemma same_shape_refl: "same_shape h h"
  by (simp add: same_shape_def)

lemma same_shape_trans: "same_shape h h1 \<Longrightarrow> same_shape h1 h2 \<Longrightarrow> same_shape h h2"
  by (simp add: same_shape_def)

lemma set_forward_effect:
  assumes "x < length h" "i < ht h x"
  shows "\<exists>h'. set_forward h x i y = Inr h' \<and> same_shape h h' \<and>
           (\<forall>b j. nxt h' j b = (if j = i \<and> b = x then y else nxt h j b))"
  using assms by (simp add: set_forward_def same_shape_def nth_list_update)

lemma splice_at_effect:
  assumes u: "get_update upd i = Inr u" "u < length h" "i < ht h u"
    and x: "x < length h" "i < ht h x" "u \<noteq> x"
  shows "\<exists>h'. splice_at x upd i h = Inr h' \<and> same_shape h h' \<and>
           (\<forall>b j. nxt h' j b =
              (if j = i \<and> b = x then nxt h i u else if j = i \<and> b = u then Some x else nxt h j b))"
proof -
  from set_forward_effect [OF x(1,2), of "nxt h i u"]
  obtain h1 where h1: "set_forward h x i (nxt h i u) = Inr h1" "same_shape h h1"
    "\<forall>b j. nxt h1 j b = (if j = i \<and> b = x then nxt h i u else nxt h j b)" by blast
  from h1(2) u have "u < length h1" "i < ht h1 u" by (simp_all add: same_shape_def)
  from set_forward_effect [OF this, of "Some x"]
  obtain h2 where h2: "set_forward h1 u i (Some x) = Inr h2" "same_shape h1 h2"
    "\<forall>b j. nxt h2 j b = (if j = i \<and> b = u then Some x else nxt h1 j b)" by blast
  have "splice_at x upd i h = Inr h2"
    by (simp add: splice_at_def u get_forward_def h1 h2)
  moreover have "same_shape h h2"
    using h1(2) h2(2) by (rule same_shape_trans)
  moreover have "\<forall>b j. nxt h2 j b =
      (if j = i \<and> b = x then nxt h i u else if j = i \<and> b = u then Some x else nxt h j b)"
    using h1(3) h2(3) x(3) by auto
  ultimately show ?thesis by blast
qed

lemma splice_effect:
  assumes "distinct js" "x < length h"
    and "\<forall>j\<in>set js. get_update upd j = Inr (pr j) \<and> pr j < length h \<and> j < ht h (pr j) \<and>
           j < ht h x \<and> pr j \<noteq> x"
  shows "\<exists>h'. splice x upd js h = Inr h' \<and> same_shape h h' \<and>
           (\<forall>b j. nxt h' j b =
              (if j \<in> set js \<and> b = x then nxt h j (pr j)
               else if j \<in> set js \<and> b = pr j then Some x else nxt h j b))"
  using assms
proof (induction js arbitrary: h)
  case Nil
  then show ?case by (simp add: same_shape_refl)
next
  case (Cons i js)
  from Cons.prems have i: "get_update upd i = Inr (pr i)" "pr i < length h" "i < ht h (pr i)"
    "x < length h" "i < ht h x" "pr i \<noteq> x" by auto
  from splice_at_effect [OF i]
  obtain h1 where h1: "splice_at x upd i h = Inr h1" "same_shape h h1"
    "\<forall>b j. nxt h1 j b =
       (if j = i \<and> b = x then nxt h i (pr i) else if j = i \<and> b = pr i then Some x else nxt h j b)"
    by blast
  have pre: "distinct js" "x < length h1"
    "\<forall>j\<in>set js. get_update upd j = Inr (pr j) \<and> pr j < length h1 \<and> j < ht h1 (pr j) \<and>
           j < ht h1 x \<and> pr j \<noteq> x"
    using Cons.prems h1(2) by (simp_all add: same_shape_def)
  from Cons.IH [OF pre]
  obtain h2 where h2: "splice x upd js h1 = Inr h2" "same_shape h1 h2"
    "\<forall>b j. nxt h2 j b =
       (if j \<in> set js \<and> b = x then nxt h1 j (pr j)
        else if j \<in> set js \<and> b = pr j then Some x else nxt h1 j b)"
    by blast
  have "splice x upd (i # js) h = Inr h2"
    by (simp add: h1 h2)
  moreover have "same_shape h h2"
    using h1(2) h2(2) by (rule same_shape_trans)
  moreover have "\<forall>b j. nxt h2 j b =
      (if j \<in> set (i # js) \<and> b = x then nxt h j (pr j)
       else if j \<in> set (i # js) \<and> b = pr j then Some x else nxt h j b)"
  proof (intro allI)
    fix b j
    from Cons.prems have "i \<notin> set js" by simp
    then show "nxt h2 j b =
      (if j \<in> set (i # js) \<and> b = x then nxt h j (pr j)
       else if j \<in> set (i # js) \<and> b = pr j then Some x else nxt h j b)"
      by (cases "j = i") (auto simp: h1(3) h2(3))
  qed
  ultimately show ?case by blast
qed

lemma extend_updates_effect:
  assumes "\<forall>j\<in>set js. j < length upd"
  shows "\<exists>upd'. extend_updates hdr js upd = Inr upd' \<and> length upd' = length upd \<and>
           (\<forall>i<length upd. upd' ! i = (if i \<in> set js then Some hdr else upd ! i))"
  using assms
proof (induction js arbitrary: upd)
  case Nil
  then show ?case by simp
next
  case (Cons j js)
  then have j: "j < length upd" by simp
  from Cons.prems have "\<forall>i\<in>set js. i < length (upd[j := Some hdr])" by simp
  from Cons.IH [OF this]
  obtain upd' where u: "extend_updates hdr js (upd[j := Some hdr]) = Inr upd'"
    "length upd' = length upd"
    "\<forall>i<length upd. upd' ! i = (if i \<in> set js then Some hdr else upd[j := Some hdr] ! i)"
    by auto
  have "extend_updates hdr (j # js) upd = Inr upd'"
    by (simp add: set_update_def j u)
  moreover have "\<forall>i<length upd. upd' ! i = (if i \<in> set (j # js) then Some hdr else upd ! i)"
    using u(3) j by (auto simp: nth_list_update)
  ultimately show ?case using u(2) by blast
qed

lemma random_level_loop_le:
  "lvl \<le> max_level s \<Longrightarrow> fst (random_level_loop s lvl rnd) \<le> max_level s"
proof (induction s lvl rnd rule: random_level_loop.induct)
  case (1 s lvl rnd)
  show ?case
  proof (cases "shd rnd < p s \<and> lvl < max_level s")
    case True
    have "random_level_loop s lvl rnd = random_level_loop s (lvl + 1) (stl rnd)"
      by (subst random_level_loop.simps, subst if_P [OF True], rule refl)
    with True 1 show ?thesis by simp
  next
    case False
    have "random_level_loop s lvl rnd = (lvl, stl rnd)"
      by (subst random_level_loop.simps, subst if_not_P [OF False], rule refl)
    with 1 show ?thesis by simp
  qed
qed

lemma random_level_le: "fst (random_level s rnd) \<le> max_level s"
  by (simp add: random_level_def random_level_loop_le)

lemma chain_insert_level:
  assumes pre: "chain h i (Some hdr) (c1 @ [u]) y0" and post: "chain h i y0 ys None"
    and fresh: "u \<notin> set c1" "n \<notin> set c1" "n \<notin> set ys" "u \<notin> set ys"
    and frame: "\<And>b. b \<noteq> n \<Longrightarrow> b \<noteq> u \<Longrightarrow> b < length h \<Longrightarrow>
                   b < length h' \<and> ht h' b = ht h b \<and> nxt h' i b = nxt h i b"
    and new: "u < length h'" "ht h' u = ht h u" "nxt h' i u = Some n"
             "n < length h'" "i < ht h' n" "nxt h' i n = y0"
  shows "chain h' i (Some hdr) (c1 @ [u] @ [n] @ ys) None"
proof -
  from pre have a: "chain h i (Some hdr) c1 (Some u)" and u: "i < ht h u"
    unfolding chain_append by auto
  have "chain h' i (Some hdr) c1 (Some u)"
  proof (rule chain_frame [OF a], intro ballI impI)
    fix b assume "b \<in> set c1" "b < length h"
    with fresh have "b \<noteq> n" "b \<noteq> u" "b < length h" by auto
    then show "b < length h' \<and> ht h' b = ht h b \<and> nxt h' i b = nxt h i b" by (rule frame)
  qed
  moreover have "chain h' i (Some u) [u] (Some n)"
    using new u by simp
  moreover have "chain h' i (Some n) [n] y0"
    using new by simp
  moreover have "chain h' i y0 ys None"
  proof (rule chain_frame [OF post], intro ballI impI)
    fix b assume "b \<in> set ys" "b < length h"
    with fresh have "b \<noteq> n" "b \<noteq> u" "b < length h" by auto
    then show "b < length h' \<and> ht h' b = ht h b \<and> nxt h' i b = nxt h i b" by (rule frame)
  qed
  ultimately show ?thesis
    unfolding chain_append by blast
qed

lemma chain_delete_level:
  assumes pre: "chain h i (Some hdr) (c1 @ [u]) (Some x)"
    and post: "chain h i y1 ys None"
    and fresh: "u \<notin> set c1" "u \<notin> set ys"
    and frame: "\<And>b. b \<noteq> u \<Longrightarrow> b < length h \<Longrightarrow>
                   b < length h' \<and> ht h' b = ht h b \<and> nxt h' i b = nxt h i b"
    and new: "u < length h'" "ht h' u = ht h u" "nxt h' i u = y1"
  shows "chain h' i (Some hdr) (c1 @ [u] @ ys) None"
proof -
  from pre have a: "chain h i (Some hdr) c1 (Some u)" and u: "i < ht h u"
    unfolding chain_append by auto
  have "chain h' i (Some hdr) c1 (Some u)"
  proof (rule chain_frame [OF a], intro ballI impI)
    fix b assume "b \<in> set c1" "b < length h"
    with fresh have "b \<noteq> u" "b < length h" by auto
    then show "b < length h' \<and> ht h' b = ht h b \<and> nxt h' i b = nxt h i b" by (rule frame)
  qed
  moreover have "chain h' i (Some u) [u] y1"
    using new u by simp
  moreover have "chain h' i y1 ys None"
  proof (rule chain_frame [OF post], intro ballI impI)
    fix b assume "b \<in> set ys" "b < length h"
    with fresh have "b \<noteq> u" "b < length h" by auto
    then show "b < length h' \<and> ht h' b = ht h b \<and> nxt h' i b = nxt h i b" by (rule frame)
  qed
  ultimately show ?thesis
    unfolding chain_append by blast
qed

lemma repI:
  assumes "lvl \<le> max_level s" "header s < length h'" "ht h' (header s) = max_level s + 1"
    "header s \<notin> set xs"
    "\<forall>a\<in>set xs. a < length h' \<and> key (h' ! a) \<noteq> None \<and> 0 < ht h' a \<and> ht h' a \<le> lvl + 1"
    "sorted_wrt (<) (map (keyof h') xs)"
    "\<forall>i\<le>max_level s. chain h' i (nxt h' i (header s)) (lane h' i xs) None"
    "0 < lvl \<longrightarrow> (\<exists>a\<in>set xs. lvl < ht h' a)"
  shows "rep (s\<lparr>level := lvl, heap := h'\<rparr>) xs"
  using assms by (simp add: rep_def)

lemma lane_cong:
  "(\<And>a. a \<in> set xs \<Longrightarrow> ht h' a = ht h a) \<Longrightarrow> lane h' i xs = lane h i xs"
  unfolding lane_def by (rule filter_cong) auto

lemma rep_insert:
  fixes s :: "('k::linorder, 'v) skiplist"
  assumes r: "rep s (lo @ hi)"
    and lo: "\<forall>a\<in>set lo. keyof (heap s) a < k"
    and hi: "\<forall>a\<in>set hi. k < keyof (heap s) a"
    and nl: "nl \<le> max_level s"
    and shape: "same_shape (heap s @ [new_node nl (Some k) v]) h'"
    and slots: "\<forall>b j. nxt h' j b =
        (if j \<le> nl \<and> b = length (heap s)
         then nxt (heap s @ [new_node nl (Some k) v]) j (pred_at s lo j)
         else if j \<le> nl \<and> b = pred_at s lo j then Some (length (heap s))
         else nxt (heap s @ [new_node nl (Some k) v]) j b)"
  shows "rep (s\<lparr>level := (if nl > level s then nl else level s), heap := h'\<rparr>)
           (lo @ length (heap s) # hi)"
proof -
  let ?h = "heap s" and ?n = "length (heap s)" and ?hdr = "header s"
  let ?hz = "heap s @ [new_node nl (Some k) v]"
  let ?L = "if nl > level s then nl else level s"
  have len: "length h' = ?n + 1" using shape by (simp add: same_shape_def)
  have old: "key (h' ! b) = key (?h ! b)" "val (h' ! b) = val (?h ! b)" "ht h' b = ht ?h b"
    if "b < ?n" for b
    using shape that by (simp_all add: same_shape_def nth_append)
  have new: "key (h' ! ?n) = Some k" "val (h' ! ?n) = v" "ht h' ?n = nl + 1"
    using shape by (simp_all add: same_shape_def new_node_def)
  have h0: "nxt ?hz j b = nxt ?h j b" if "b < ?n" for b j
    using that by (simp add: nth_append)
  from r have hdr: "?hdr < ?n" "ht ?h ?hdr = max_level s + 1" "?hdr \<notin> set (lo @ hi)"
    and lm: "level s \<le> max_level s"
    and nodes: "\<forall>a\<in>set (lo @ hi). a < ?n \<and> key (?h ! a) \<noteq> None \<and> 0 < ht ?h a \<and> ht ?h a \<le> level s + 1"
    and srt: "sorted_wrt (<) (map (keyof ?h) (lo @ hi))"
    and top: "0 < level s \<longrightarrow> (\<exists>a\<in>set (lo @ hi). level s < ht ?h a)"
    by (simp_all add: rep_def)
  from rep_distinct [OF r] have dist: "distinct (?hdr # lo @ hi)" .
  have nfresh: "?n \<notin> set (?hdr # lo @ hi)" using hdr nodes by auto
  have predlt: "pred_at s lo j < ?n" for j
    using pred_at_mem_lo [of s lo j] hdr nodes by auto
  have c1: "?L \<le> max_level s" using nl lm by simp
  have c2: "?hdr < length h'" using hdr len by simp
  have c3: "ht h' ?hdr = max_level s + 1" using old(3) [OF hdr(1)] hdr by simp
  have c4: "?hdr \<notin> set (lo @ ?n # hi)" using hdr by auto
  have c5: "\<forall>a\<in>set (lo @ ?n # hi). a < length h' \<and> key (h' ! a) \<noteq> None \<and>
              0 < ht h' a \<and> ht h' a \<le> ?L + 1"
  proof
    fix a assume a: "a \<in> set (lo @ ?n # hi)"
    show "a < length h' \<and> key (h' ! a) \<noteq> None \<and> 0 < ht h' a \<and> ht h' a \<le> ?L + 1"
    proof (cases "a = ?n")
      case True
      then show ?thesis using new len by simp
    next
      case False
      with a have "a \<in> set (lo @ hi)" by auto
      with nodes have "a < ?n \<and> key (?h ! a) \<noteq> None \<and> 0 < ht ?h a \<and> ht ?h a \<le> level s + 1"
        by blast
      then show ?thesis using old [of a] len by auto
    qed
  qed
  have keys: "map (keyof h') ys = map (keyof ?h) ys" if "set ys \<subseteq> set (lo @ hi)" for ys
    using that nodes old(1) by (intro map_cong) auto
  have c6: "sorted_wrt (<) (map (keyof h') (lo @ ?n # hi))"
  proof -
    have e1: "map (keyof h') lo = map (keyof ?h) lo" by (rule keys) auto
    have e2: "map (keyof h') hi = map (keyof ?h) hi" by (rule keys) auto
    have e3: "keyof h' ?n = k" using new by simp
    have "map (keyof h') (lo @ ?n # hi) = map (keyof ?h) lo @ k # map (keyof ?h) hi"
      by (simp only: map_append list.map e1 e2 e3)
    moreover have "sorted_wrt (<) (map (keyof ?h) lo @ k # map (keyof ?h) hi)"
      using srt lo hi by (auto simp: sorted_wrt_append)
    ultimately show ?thesis by (simp only:)
  qed
  have lanes: "lane h' i ys = lane ?h i ys" if "set ys \<subseteq> set (lo @ hi)" for ys i
    using that nodes old(3) by (intro lane_cong) auto
  have c7: "\<forall>i\<le>max_level s. chain h' i (nxt h' i ?hdr) (lane h' i (lo @ ?n # hi)) None"
  proof (intro allI impI)
    fix i assume i: "i \<le> max_level s"
    from pred_next [OF r i] obtain c where
      ceq: "?hdr # lane ?h i lo = c @ [pred_at s lo i]"
      and cpre: "chain ?h i (Some ?hdr) c (Some (pred_at s lo i))"
      and pb: "pred_at s lo i < ?n" "i < ht ?h (pred_at s lo i)"
      and cpost: "chain ?h i (nxt ?h i (pred_at s lo i)) (lane ?h i hi) None"
      by blast
    show "chain h' i (nxt h' i ?hdr) (lane h' i (lo @ ?n # hi)) None"
    proof (cases "i \<le> nl")
      case True
      let ?u = "pred_at s lo i"
      have dl: "distinct (?hdr # lane ?h i lo)" "set (lane ?h i lo) \<subseteq> set lo"
        "set (lane ?h i hi) \<subseteq> set hi"
        using dist by (auto simp: lane_def)
      have pre: "chain ?h i (Some ?hdr) (c @ [?u]) (nxt ?h i ?u)"
        using cpre pb by (simp add: chain_append)
      have f1: "?u \<notin> set c" using dl(1) unfolding ceq by simp
      have csub: "set c \<subseteq> set (?hdr # lo)"
      proof -
        have "set c \<subseteq> set (c @ [?u])" by auto
        also have "\<dots> = set (?hdr # lane ?h i lo)" by (simp only: ceq)
        also have "\<dots> \<subseteq> set (?hdr # lo)" using dl(2) by auto
        finally show ?thesis .
      qed
      have f2: "?n \<notin> set c" using csub nfresh by auto
      have f3: "?n \<notin> set (lane ?h i hi)" using dl(3) nfresh by auto
      have f4: "?u \<notin> set (lane ?h i hi)"
        using pred_at_mem_lo [of s lo i] dl(3) dist by auto
      have un: "?u \<noteq> ?n" using pb by simp
      have fr: "b < length h' \<and> ht h' b = ht ?h b \<and> nxt h' i b = nxt ?h i b"
        if "b \<noteq> ?n" "b \<noteq> ?u" "b < ?n" for b
        using that old(3) [of b] len h0 [of b i] slots by simp
      have n1: "?u < length h'" using pb len by simp
      have n2: "ht h' ?u = ht ?h ?u" using old(3) [OF pb(1)] .
      have n3: "nxt h' i ?u = Some ?n" using slots True un by simp
      have n4: "?n < length h'" using len by simp
      have n5: "i < ht h' ?n" using new True by simp
      have n6: "nxt h' i ?n = nxt ?h i ?u" using slots True h0 [OF pb(1), of i] by simp
      from chain_insert_level [OF pre cpost f1 f2 f3 f4 fr n1 n2 n3 n4 n5 n6]
      have "chain h' i (Some ?hdr) ((c @ [?u]) @ [?n] @ lane ?h i hi) None" by simp
      then have "chain h' i (Some ?hdr) (?hdr # lane ?h i lo @ ?n # lane ?h i hi) None"
        by (simp only: ceq [symmetric]) simp
      then have "chain h' i (nxt h' i ?hdr) (lane ?h i lo @ ?n # lane ?h i hi) None"
        by simp
      moreover have "lane h' i (lo @ ?n # hi) = lane ?h i lo @ ?n # lane ?h i hi"
        using lanes [of lo i] lanes [of hi i] new True by (simp add: lane_def)
      ultimately show ?thesis by simp
    next
      case False
      have same: "nxt h' i b = nxt ?h i b" if "b < ?n" for b
        using slots False h0 [OF that, of i] by simp
      from rep_chain [OF r i]
      have oldc: "chain ?h i (Some ?hdr) (?hdr # lane ?h i (lo @ hi)) None" .
      have "chain h' i (Some ?hdr) (?hdr # lane ?h i (lo @ hi)) None"
      proof (rule chain_frame [OF oldc], intro ballI impI)
        fix b assume "b \<in> set (?hdr # lane ?h i (lo @ hi))" "b < ?n"
        then show "b < length h' \<and> ht h' b = ht ?h b \<and> nxt h' i b = nxt ?h i b"
          using old(3) [of b] same [of b] len by simp
      qed
      then have "chain h' i (nxt h' i ?hdr) (lane ?h i (lo @ hi)) None" by simp
      moreover have "lane h' i (lo @ ?n # hi) = lane ?h i (lo @ hi)"
        using lanes [of lo i] lanes [of hi i] new False by (simp add: lane_def)
      ultimately show ?thesis by simp
    qed
  qed
  have c8: "0 < ?L \<longrightarrow> (\<exists>a\<in>set (lo @ ?n # hi). ?L < ht h' a)"
  proof (cases "nl > level s")
    case True
    then show ?thesis using new by auto
  next
    case False
    show ?thesis
    proof
      assume "0 < ?L"
      with False top obtain a where a: "a \<in> set (lo @ hi)" "level s < ht ?h a" by auto
      with nodes have "a < ?n" by blast
      with a old(3) [of a] have big: "level s < ht h' a" by simp
      from a have mem: "a \<in> set (lo @ ?n # hi)" by auto
      from False big have "?L < ht h' a" by simp
      with mem show "\<exists>a\<in>set (lo @ ?n # hi). ?L < ht h' a" by (rule rev_bexI)
    qed
  qed
  show ?thesis by (rule repI [OF c1 c2 c3 c4 c5 c6 c7 c8])
qed

lemma rep_same_links:
  assumes r: "rep s xs" and len: "length h' = length (heap s)"
    and same: "\<And>b. key (h' ! b) = key (heap s ! b) \<and> forward (h' ! b) = forward (heap s ! b)"
  shows "rep (s\<lparr>heap := h'\<rparr>) xs"
proof -
  have l: "lane h' i ys = lane (heap s) i ys" for i ys
    by (simp add: lane_def same)
  have k: "map (keyof h') xs = map (keyof (heap s)) xs"
    by (simp add: same)
  have c: "chain h' i x ys y" if "chain (heap s) i x ys y" for i x ys y
    by (rule chain_frame [OF that]) (simp add: len same)
  from r show ?thesis
    unfolding rep_def by (simp add: l k len same c)
qed

lemma is_key_probe:
  assumes r: "rep s (lo @ hi)"
  shows "is_key (heap s) (case hi of [] \<Rightarrow> None | b # _ \<Rightarrow> Some b) k =
           Inr (case hi of [] \<Rightarrow> False | b # _ \<Rightarrow> keyof (heap s) b = k)"
proof (cases hi)
  case Nil
  then show ?thesis by (simp add: is_key_def)
next
  case (Cons b bs)
  with r have "b < length (heap s)" "key (heap s ! b) \<noteq> None" by (simp_all add: rep_def)
  with Cons show ?thesis by (auto simp: is_key_def key_eq_def)
qed

text \<open>Insertion of a key that is already linked.\<close>

lemma insert_present:
  assumes r: "rep s (lo @ b # hi)"
    and lo: "\<forall>a\<in>set lo. keyof (heap s) a < k"
    and b: "keyof (heap s) b = k"
    and hi: "\<forall>a\<in>set hi. k < keyof (heap s) a"
  shows "insert_sl k v rnd s =
           Some (Inr (s\<lparr>heap := (heap s)[b := (heap s ! b)\<lparr>val := v\<rparr>]\<rparr>, rnd))"
    and "rep (s\<lparr>heap := (heap s)[b := (heap s ! b)\<lparr>val := v\<rparr>]\<rparr>) (lo @ b # hi)"
proof -
  have ge: "\<forall>a\<in>set (b # hi). \<not> keyof (heap s) a < k" using b hi by auto
  from r have bl: "b < length (heap s)" by (simp add: rep_def)
  from r have ml: "0 \<le> max_level s" by simp
  have fu: "find_updates k s = Some (Inr (updates s lo (level s + 1)))"
    by (rule find_updates_rep [OF r lo ge])
  have gu: "get_update (updates s lo (level s + 1)) 0 = Inr (pred_at s lo 0)"
    by (rule get_update_updates) simp_all
  have gf: "get_forward (heap s) (pred_at s lo 0) 0 = Inr (Some b)"
    using probe_rep [OF r] by simp
  have ik: "is_key (heap s) (Some b) k = Inr True"
    using is_key_probe [OF r, of k] b by simp
  show "insert_sl k v rnd s =
           Some (Inr (s\<lparr>heap := (heap s)[b := (heap s ! b)\<lparr>val := v\<rparr>]\<rparr>, rnd))"
    using fu gu gf ik bl by (simp add: insert_sl_def set_val_def)
  show "rep (s\<lparr>heap := (heap s)[b := (heap s ! b)\<lparr>val := v\<rparr>]\<rparr>) (lo @ b # hi)"
    by (rule rep_same_links [OF r]) (simp_all add: nth_list_update bl)
qed

text \<open>Insertion of a key that is not linked.\<close>

lemma insert_fresh:
  fixes s :: "('k::linorder, 'v) skiplist"
  assumes r: "rep s (lo @ hi)"
    and lo: "\<forall>a\<in>set lo. keyof (heap s) a < k"
    and hi: "\<forall>a\<in>set hi. k < keyof (heap s) a"
  shows "\<exists>h'. insert_sl k v rnd s =
           Some (Inr (s\<lparr>level := (if fst (random_level s rnd) > level s
                                  then fst (random_level s rnd) else level s),
                        heap := h'\<rparr>, snd (random_level s rnd))) \<and>
          rep (s\<lparr>level := (if fst (random_level s rnd) > level s
                            then fst (random_level s rnd) else level s), heap := h'\<rparr>)
              (lo @ length (heap s) # hi) \<and>
          length h' = length (heap s) + 1 \<and>
          key (h' ! length (heap s)) = Some k \<and> val (h' ! length (heap s)) = v \<and>
          (\<forall>a<length (heap s). key (h' ! a) = key (heap s ! a) \<and> val (h' ! a) = val (heap s ! a))"
proof -
  let ?h = "heap s" and ?n = "length (heap s)"
  let ?nl = "fst (random_level s rnd)"
  let ?hz = "heap s @ [new_node ?nl (Some k) v]"
  let ?upd = "updates s lo (level s + 1)"
  have ge: "\<forall>a\<in>set hi. \<not> keyof ?h a < k" using hi by auto
  have nl: "?nl \<le> max_level s" by (rule random_level_le)
  from r have lm: "level s \<le> max_level s" by (simp add: rep_def)
  have fu: "find_updates k s = Some (Inr ?upd)"
    by (rule find_updates_rep [OF r lo ge])
  have gu: "get_update ?upd 0 = Inr (pred_at s lo 0)"
    by (rule get_update_updates) simp_all
  have gf: "get_forward ?h (pred_at s lo 0) 0 = Inr (case hi of [] \<Rightarrow> None | b # _ \<Rightarrow> Some b)"
    by (rule probe_rep [OF r])
  have "(case hi of [] \<Rightarrow> False | b # _ \<Rightarrow> keyof ?h b = k) = False"
    using hi by (cases hi) auto
  with is_key_probe [OF r, of k]
  have ik: "is_key ?h (case hi of [] \<Rightarrow> None | b # _ \<Rightarrow> Some b) k = Inr False" by simp
  have lu: "length ?upd = max_level s + 1" by (simp add: updates_def)
  obtain upd' where ext:
    "(if ?nl > level s then extend_updates (header s) [level s + 1 ..< ?nl + 1] ?upd else Inr ?upd)
       = Inr upd'"
    and gup: "\<forall>j\<le>?nl. get_update upd' j = Inr (pred_at s lo j)"
  proof (cases "?nl > level s")
    case False
    have "\<forall>j\<le>?nl. get_update ?upd j = Inr (pred_at s lo j)"
      using False nl by (auto intro!: get_update_updates)
    with False that show thesis by simp
  next
    case True
    have "\<forall>j\<in>set [level s + 1 ..< ?nl + 1]. j < length ?upd" using nl lu by auto
    from extend_updates_effect [OF this, of "header s"]
    obtain u where u: "extend_updates (header s) [level s + 1 ..< ?nl + 1] ?upd = Inr u"
      "length u = length ?upd"
      "\<forall>i<length ?upd. u ! i = (if i \<in> set [level s + 1 ..< ?nl + 1] then Some (header s) else ?upd ! i)"
      by blast
    have "\<forall>j\<le>?nl. get_update u j = Inr (pred_at s lo j)"
    proof (intro allI impI)
      fix j assume j: "j \<le> ?nl"
      with nl lu have jl: "j < length ?upd" by simp
      show "get_update u j = Inr (pred_at s lo j)"
      proof (cases "j \<le> level s")
        case True
        with u(3) jl have "u ! j = ?upd ! j" by auto
        moreover have "get_update ?upd j = Inr (pred_at s lo j)"
          using True lm by (intro get_update_updates) auto
        ultimately show ?thesis using jl u(2) by (simp add: get_update_def)
      next
        case False
        with u(3) jl j have "u ! j = Some (header s)" by simp
        moreover have "pred_at s lo j = header s"
          using False by (intro pred_at_top [OF r]) simp
        ultimately show ?thesis using jl u(2) by (simp add: get_update_def)
      qed
    qed
    with True u(1) that show thesis by simp
  qed
  have pb: "pred_at s lo j < ?n" "j < ht ?h (pred_at s lo j)" if "j \<le> max_level s" for j
    using pred_next [OF r that] by auto
  have pre: "\<forall>j\<in>set [0 ..< ?nl + 1]. get_update upd' j = Inr (pred_at s lo j) \<and>
      pred_at s lo j < length ?hz \<and> j < ht ?hz (pred_at s lo j) \<and> j < ht ?hz ?n \<and>
      pred_at s lo j \<noteq> ?n"
  proof
    fix j assume "j \<in> set [0 ..< ?nl + 1]"
    then have j: "j \<le> ?nl" by auto
    with nl have jm: "j \<le> max_level s" by simp
    from pb [OF jm] j gup show "get_update upd' j = Inr (pred_at s lo j) \<and>
      pred_at s lo j < length ?hz \<and> j < ht ?hz (pred_at s lo j) \<and> j < ht ?hz ?n \<and>
      pred_at s lo j \<noteq> ?n"
      by (simp add: nth_append new_node_def)
  qed
  have "distinct [0 ..< ?nl + 1]" "?n < length ?hz" by simp_all
  from splice_effect [OF this pre]
  obtain h' where sp: "splice ?n upd' [0 ..< ?nl + 1] ?hz = Inr h'"
    and shape: "same_shape ?hz h'"
    and slots: "\<forall>b j. nxt h' j b =
        (if j \<in> set [0 ..< ?nl + 1] \<and> b = ?n then nxt ?hz j (pred_at s lo j)
         else if j \<in> set [0 ..< ?nl + 1] \<and> b = pred_at s lo j then Some ?n
         else nxt ?hz j b)"
    by blast
  have slots': "\<forall>b j. nxt h' j b =
        (if j \<le> ?nl \<and> b = ?n then nxt ?hz j (pred_at s lo j)
         else if j \<le> ?nl \<and> b = pred_at s lo j then Some ?n
         else nxt ?hz j b)"
  proof -
    have mem: "j \<in> set [0 ..< ?nl + 1] \<longleftrightarrow> j \<le> ?nl" for j by auto
    show ?thesis unfolding mem [symmetric] by (rule slots)
  qed
  have res: "insert_sl k v rnd s =
      Some (Inr (s\<lparr>level := (if ?nl > level s then ?nl else level s), heap := h'\<rparr>,
                 snd (random_level s rnd)))"
  proof (cases "?nl > level s")
    case True
    with ext sp fu gu gf ik show ?thesis
      by (simp add: insert_sl_def split_def Let_def del: upt_Suc)
  next
    case False
    with ext sp fu gu gf ik show ?thesis
      by (simp add: insert_sl_def split_def Let_def del: upt_Suc)
  qed
  have rp: "rep (s\<lparr>level := (if ?nl > level s then ?nl else level s), heap := h'\<rparr>)
              (lo @ ?n # hi)"
    by (rule rep_insert [OF r lo hi nl shape slots'])
  have "length h' = ?n + 1" using shape by (simp add: same_shape_def)
  moreover have "key (h' ! ?n) = Some k" "val (h' ! ?n) = v"
    using shape by (simp_all add: same_shape_def new_node_def)
  moreover have "\<forall>a<?n. key (h' ! a) = key (?h ! a) \<and> val (h' ! a) = val (?h ! a)"
    using shape by (simp add: same_shape_def nth_append)
  ultimately show ?thesis using res rp by blast
qed

lemma unlink_at_effect:
  assumes u: "get_update upd i = Inr u" "u < length h" "i < ht h u"
    and x: "x < length h" "nxt h i u = Some x \<longrightarrow> i < ht h x"
  shows "\<exists>h'. unlink_at x upd i h = Inr h' \<and> same_shape h h' \<and>
           (\<forall>b j. nxt h' j b =
              (if j = i \<and> b = u \<and> nxt h i u = Some x then nxt h i x else nxt h j b))"
proof (cases "nxt h i u = Some x")
  case False
  then have "unlink_at x upd i h = Inr h"
    by (simp add: unlink_at_def u get_forward_def)
  with False show ?thesis by (auto simp: same_shape_refl)
next
  case True
  with x have ix: "i < ht h x" by simp
  from set_forward_effect [OF u(2,3), of "nxt h i x"]
  obtain h1 where h1: "set_forward h u i (nxt h i x) = Inr h1" "same_shape h h1"
    "\<forall>b j. nxt h1 j b = (if j = i \<and> b = u then nxt h i x else nxt h j b)" by blast
  have "unlink_at x upd i h = Inr h1"
    using True by (simp add: unlink_at_def u get_forward_def x ix h1)
  with h1 True show ?thesis by auto
qed

lemma unlink_effect:
  assumes "distinct js" "x < length h"
    and "\<forall>j\<in>set js. get_update upd j = Inr (pr j) \<and> pr j < length h \<and> j < ht h (pr j) \<and>
           pr j \<noteq> x \<and> (nxt h j (pr j) = Some x \<longrightarrow> j < ht h x)"
  shows "\<exists>h'. unlink x upd js h = Inr h' \<and> same_shape h h' \<and>
           (\<forall>b j. nxt h' j b =
              (if j \<in> set js \<and> b = pr j \<and> nxt h j (pr j) = Some x then nxt h j x
               else nxt h j b))"
  using assms
proof (induction js arbitrary: h)
  case Nil
  then show ?case by (simp add: same_shape_refl)
next
  case (Cons i js)
  from Cons.prems have i: "get_update upd i = Inr (pr i)" "pr i < length h" "i < ht h (pr i)"
    "x < length h" "nxt h i (pr i) = Some x \<longrightarrow> i < ht h x" and ne: "pr i \<noteq> x"
    and inot: "i \<notin> set js" by auto
  from unlink_at_effect [OF i]
  obtain h1 where h1: "unlink_at x upd i h = Inr h1" "same_shape h h1"
    "\<forall>b j. nxt h1 j b =
       (if j = i \<and> b = pr i \<and> nxt h i (pr i) = Some x then nxt h i x else nxt h j b)"
    by blast
  have keep: "nxt h1 j b = nxt h j b" if "j \<noteq> i" for j b
    using h1(3) that by simp
  have pre: "distinct js" "x < length h1"
    "\<forall>j\<in>set js. get_update upd j = Inr (pr j) \<and> pr j < length h1 \<and> j < ht h1 (pr j) \<and>
           pr j \<noteq> x \<and> (nxt h1 j (pr j) = Some x \<longrightarrow> j < ht h1 x)"
  proof -
    show "distinct js" using Cons.prems by simp
    show "x < length h1" using Cons.prems h1(2) by (simp add: same_shape_def)
    show "\<forall>j\<in>set js. get_update upd j = Inr (pr j) \<and> pr j < length h1 \<and> j < ht h1 (pr j) \<and>
           pr j \<noteq> x \<and> (nxt h1 j (pr j) = Some x \<longrightarrow> j < ht h1 x)"
    proof
      fix j assume j: "j \<in> set js"
      with inot have "j \<noteq> i" by auto
      with keep have "nxt h1 j (pr j) = nxt h j (pr j)" by simp
      moreover from j Cons.prems have "get_update upd j = Inr (pr j) \<and> pr j < length h \<and>
           j < ht h (pr j) \<and> pr j \<noteq> x \<and> (nxt h j (pr j) = Some x \<longrightarrow> j < ht h x)" by simp
      ultimately show "get_update upd j = Inr (pr j) \<and> pr j < length h1 \<and> j < ht h1 (pr j) \<and>
           pr j \<noteq> x \<and> (nxt h1 j (pr j) = Some x \<longrightarrow> j < ht h1 x)"
        using h1(2) by (simp add: same_shape_def)
    qed
  qed
  from Cons.IH [OF pre]
  obtain h2 where h2: "unlink x upd js h1 = Inr h2" "same_shape h1 h2"
    "\<forall>b j. nxt h2 j b =
       (if j \<in> set js \<and> b = pr j \<and> nxt h1 j (pr j) = Some x then nxt h1 j x else nxt h1 j b)"
    by blast
  have "unlink x upd (i # js) h = Inr h2"
    by (simp add: h1 h2)
  moreover have "same_shape h h2"
    using h1(2) h2(2) by (rule same_shape_trans)
  moreover have "\<forall>b j. nxt h2 j b =
      (if j \<in> set (i # js) \<and> b = pr j \<and> nxt h j (pr j) = Some x then nxt h j x
       else nxt h j b)"
  proof (intro allI)
    fix b j
    show "nxt h2 j b =
      (if j \<in> set (i # js) \<and> b = pr j \<and> nxt h j (pr j) = Some x then nxt h j x
       else nxt h j b)"
    proof (cases "j = i")
      case True
      with inot have "nxt h2 j b = nxt h1 j b" using h2(3) by simp
      with True show ?thesis using h1(3) by simp
    next
      case False
      with keep have "nxt h1 j b = nxt h j b" "nxt h1 j (pr j) = nxt h j (pr j)"
        "nxt h1 j x = nxt h j x" by simp_all
      with False show ?thesis using h2(3) by simp
    qed
  qed
  ultimately show ?case by blast
qed

lemma shrink_level_effect:
  assumes "hdr < length h"
  shows "l < ht h hdr \<Longrightarrow>
    \<exists>l'. shrink_level h hdr l = Inr l' \<and> l' \<le> l \<and>
      (\<forall>j. l' < j \<and> j \<le> l \<longrightarrow> nxt h j hdr = None) \<and> (0 < l' \<longrightarrow> nxt h l' hdr \<noteq> None)"
proof (induction l)
  case 0
  then show ?case by simp
next
  case (Suc l)
  show ?case
  proof (cases "nxt h (Suc l) hdr = None")
    case False
    with Suc.prems assms have "shrink_level h hdr (Suc l) = Inr (Suc l)"
      by (auto simp: get_forward_def)
    moreover have "Suc l \<le> Suc l" by simp
    moreover have "\<forall>j. Suc l < j \<and> j \<le> Suc l \<longrightarrow> nxt h j hdr = None" by auto
    ultimately show ?thesis using False by blast
  next
    case True
    from Suc obtain l' where l': "shrink_level h hdr l = Inr l'" "l' \<le> l"
      "\<forall>j. l' < j \<and> j \<le> l \<longrightarrow> nxt h j hdr = None" "0 < l' \<longrightarrow> nxt h l' hdr \<noteq> None"
      by auto
    from True Suc.prems assms have "shrink_level h hdr (Suc l) = Inr l'"
      by (simp add: get_forward_def l')
    moreover have "\<forall>j. l' < j \<and> j \<le> Suc l \<longrightarrow> nxt h j hdr = None"
      using l'(3) True by (auto simp: le_Suc_eq)
    ultimately show ?thesis using l' by auto
  qed
qed

text \<open>The predecessor at level \<open>j\<close> points at a linked node exactly on the levels of that node.\<close>

lemma pred_points:
  assumes r: "rep s (lo @ x # hi)" and j: "j \<le> max_level s"
  shows "nxt (heap s) j (pred_at s lo j) = Some x \<longleftrightarrow> j < ht (heap s) x"
proof -
  let ?h = "heap s"
  from pred_next [OF r j]
  have post: "chain ?h j (nxt ?h j (pred_at s lo j)) (lane ?h j (x # hi)) None" by blast
  from rep_distinct [OF r] have xhi: "x \<notin> set hi" by simp
  show ?thesis
  proof (cases "j < ht ?h x")
    case True
    with post show ?thesis by (simp add: lane_def)
  next
    case False
    with post have c: "chain ?h j (nxt ?h j (pred_at s lo j)) (lane ?h j hi) None"
      by (simp add: lane_def)
    have "nxt ?h j (pred_at s lo j) \<noteq> Some x"
    proof
      assume "nxt ?h j (pred_at s lo j) = Some x"
      with c have "x \<in> set (lane ?h j hi)" by (cases "lane ?h j hi") auto
      with lane_subset [of ?h j hi] xhi show False by auto
    qed
    with False show ?thesis by simp
  qed
qed

lemma rep_delete:
  fixes s :: "('k::linorder, 'v) skiplist"
  assumes r: "rep s (lo @ x # hi)"
    and shape: "same_shape (heap s) h'"
    and slots: "\<forall>b j. nxt h' j b =
        (if b = pred_at s lo j \<and> j < ht (heap s) x then nxt (heap s) j x else nxt (heap s) j b)"
    and lv: "l \<le> level s"
    and above: "\<forall>j. l < j \<and> j \<le> level s \<longrightarrow> nxt h' j (header s) = None"
    and top: "0 < l \<longrightarrow> nxt h' l (header s) \<noteq> None"
  shows "rep (s\<lparr>level := l, heap := h'\<rparr>) (lo @ hi)"
proof -
  let ?h = "heap s" and ?hdr = "header s"
  have len: "length h' = length ?h" using shape by (simp add: same_shape_def)
  have same: "key (h' ! b) = key (?h ! b)" "ht h' b = ht ?h b" for b
    using shape by (simp_all add: same_shape_def)
  from r have hdr: "?hdr < length ?h" "ht ?h ?hdr = max_level s + 1" "?hdr \<notin> set (lo @ x # hi)"
    and lm: "level s \<le> max_level s"
    and nodes: "\<forall>a\<in>set (lo @ x # hi). a < length ?h \<and> key (?h ! a) \<noteq> None \<and>
                  0 < ht ?h a \<and> ht ?h a \<le> level s + 1"
    and srt: "sorted_wrt (<) (map (keyof ?h) (lo @ x # hi))"
    by (simp_all add: rep_def)
  from rep_distinct [OF r] have dist: "distinct (?hdr # lo @ x # hi)" .
  have lanes: "lane h' i ys = lane ?h i ys" for i ys
    by (simp add: lane_def same)
  have c7: "chain h' i (nxt h' i ?hdr) (lane h' i (lo @ hi)) None" if i: "i \<le> max_level s" for i
  proof -
    let ?u = "pred_at s lo i"
    from pred_next [OF r i] obtain c where
      ceq: "?hdr # lane ?h i lo = c @ [?u]"
      and cpre: "chain ?h i (Some ?hdr) c (Some ?u)"
      and pb: "?u < length ?h" "i < ht ?h ?u"
      and cpost: "chain ?h i (nxt ?h i ?u) (lane ?h i (x # hi)) None"
      by blast
    have dl: "distinct (?hdr # lane ?h i lo)" "set (lane ?h i hi) \<subseteq> set hi"
      using dist by (auto simp: lane_def)
    have f1: "?u \<notin> set c" using dl(1) unfolding ceq by simp
    have f2: "?u \<notin> set (lane ?h i hi)"
      using pred_at_mem_lo [of s lo i] dl(2) dist by auto
    have fr: "b < length h' \<and> ht h' b = ht ?h b \<and> nxt h' i b = nxt ?h i b"
      if "b \<noteq> ?u" "b < length ?h" for b
      using that same(2) [of b] len slots by simp
    have n1: "?u < length h'" using pb len by simp
    have n2: "ht h' ?u = ht ?h ?u" by (rule same)
    have "chain h' i (Some ?hdr) (c @ [?u] @ lane ?h i hi) None"
    proof (cases "i < ht ?h x")
      case True
      with cpost have px: "nxt ?h i ?u = Some x"
        and post: "chain ?h i (nxt ?h i x) (lane ?h i hi) None"
        by (simp_all add: lane_def)
      have pre: "chain ?h i (Some ?hdr) (c @ [?u]) (Some x)"
        using cpre pb px by (simp add: chain_append)
      have n3: "nxt h' i ?u = nxt ?h i x" using slots True by simp
      show ?thesis
        by (rule chain_delete_level [OF pre post f1 f2 fr n1 n2 n3])
    next
      case False
      with cpost have post: "chain ?h i (nxt ?h i ?u) (lane ?h i hi) None"
        by (simp add: lane_def)
      have n3: "nxt h' i ?u = nxt ?h i ?u" using slots False by simp
      have a: "chain h' i (Some ?hdr) c (Some ?u)"
      proof (rule chain_frame [OF cpre], intro ballI impI)
        fix b assume "b \<in> set c" "b < length ?h"
        with f1 have "b \<noteq> ?u" "b < length ?h" by auto
        then show "b < length h' \<and> ht h' b = ht ?h b \<and> nxt h' i b = nxt ?h i b" by (rule fr)
      qed
      have b: "chain h' i (nxt ?h i ?u) (lane ?h i hi) None"
      proof (rule chain_frame [OF post], intro ballI impI)
        fix b assume "b \<in> set (lane ?h i hi)" "b < length ?h"
        with f2 have "b \<noteq> ?u" "b < length ?h" by auto
        then show "b < length h' \<and> ht h' b = ht ?h b \<and> nxt h' i b = nxt ?h i b" by (rule fr)
      qed
      from a b n1 n2 n3 pb show ?thesis
        by (simp add: chain_append)
    qed
    then have "chain h' i (Some ?hdr) ((c @ [?u]) @ lane ?h i hi) None" by simp
    then have "chain h' i (Some ?hdr) (?hdr # lane ?h i lo @ lane ?h i hi) None"
      by (simp only: ceq [symmetric]) simp
    then show ?thesis by (simp add: lanes)
  qed
  have empty_above: "lane h' j (lo @ hi) = []" if "l < j" "j \<le> level s" for j
  proof -
    from that lm have "j \<le> max_level s" by simp
    from c7 [OF this] above that have "chain h' j None (lane h' j (lo @ hi)) None" by simp
    then show ?thesis by (cases "lane h' j (lo @ hi)") auto
  qed
  have c1: "l \<le> max_level s" using lv lm by simp
  have c2: "?hdr < length h'" using hdr len by simp
  have c3: "ht h' ?hdr = max_level s + 1" using hdr same by simp
  have c4: "?hdr \<notin> set (lo @ hi)" using hdr by auto
  have c5: "\<forall>a\<in>set (lo @ hi). a < length h' \<and> key (h' ! a) \<noteq> None \<and>
              0 < ht h' a \<and> ht h' a \<le> l + 1"
  proof
    fix a assume a: "a \<in> set (lo @ hi)"
    with nodes have old: "a < length ?h" "key (?h ! a) \<noteq> None" "0 < ht ?h a"
      "ht ?h a \<le> level s + 1" by auto
    have "ht h' a \<le> l + 1"
    proof (rule ccontr)
      assume "\<not> ht h' a \<le> l + 1"
      then have big: "l + 1 < ht h' a" by simp
      let ?j = "ht h' a - 1"
      from big old(4) same(2) [of a] have j: "l < ?j" "?j \<le> level s" "?j < ht h' a" by simp_all
      from a j(3) have "a \<in> set (lane h' ?j (lo @ hi))" by (simp add: lane_def)
      with empty_above [OF j(1,2)] show False by simp
    qed
    with old show "a < length h' \<and> key (h' ! a) \<noteq> None \<and> 0 < ht h' a \<and> ht h' a \<le> l + 1"
      by (simp add: len same)
  qed
  have c6: "sorted_wrt (<) (map (keyof h') (lo @ hi))"
  proof -
    have "map (keyof h') (lo @ hi) = map (keyof ?h) (lo @ hi)" by (simp add: same)
    moreover have "sorted_wrt (<) (map (keyof ?h) (lo @ hi))"
      using srt by (auto simp: sorted_wrt_append)
    ultimately show ?thesis by (simp only:)
  qed
  have c7': "\<forall>i\<le>max_level s. chain h' i (nxt h' i ?hdr) (lane h' i (lo @ hi)) None"
    using c7 by blast
  have c8: "0 < l \<longrightarrow> (\<exists>a\<in>set (lo @ hi). l < ht h' a)"
  proof
    assume "0 < l"
    with top have ne: "nxt h' l ?hdr \<noteq> None" by simp
    from c7 [OF c1] ne have "lane h' l (lo @ hi) \<noteq> []" by auto
    then have "hd (lane h' l (lo @ hi)) \<in> set (lane h' l (lo @ hi))" by (rule hd_in_set)
    then have "hd (lane h' l (lo @ hi)) \<in> set (lo @ hi) \<and> l < ht h' (hd (lane h' l (lo @ hi)))"
      unfolding lane_def by auto
    then show "\<exists>a\<in>set (lo @ hi). l < ht h' a" by blast
  qed
  show ?thesis by (rule repI [OF c1 c2 c3 c4 c5 c6 c7' c8])
qed

lemma display_loop_chain:
  "chain h 0 x xs None \<Longrightarrow> display_loop h elems x = Some (Inr (elems @ items h xs))"
proof (induction xs arbitrary: x elems)
  case Nil
  then show ?case by (subst display_loop.simps) (simp add: items_def)
next
  case (Cons a xs)
  then have a: "x = Some a" "a < length h" "0 < ht h a" and rest: "chain h 0 (nxt h 0 a) xs None"
    by auto
  have "display_loop h elems x = display_loop h (elems @ [(key (h ! a), val (h ! a))]) (nxt h 0 a)"
    by (subst display_loop.simps) (use a in \<open>simp add: get_key_def get_val_def get_forward_def\<close>)
  also have "\<dots> = Some (Inr ((elems @ [(key (h ! a), val (h ! a))]) @ items h xs))"
    by (rule Cons.IH [OF rest])
  finally show ?case by (simp add: items_def)
qed

lemma len_loop_chain:
  "chain h 0 x xs None \<Longrightarrow> len_loop h cnt x = Some (Inr (cnt + length xs))"
proof (induction xs arbitrary: x cnt)
  case Nil
  then show ?case by (subst len_loop.simps) simp
next
  case (Cons a xs)
  then have a: "x = Some a" "a < length h" "0 < ht h a" and rest: "chain h 0 (nxt h 0 a) xs None"
    by auto
  have "len_loop h cnt x = len_loop h (cnt + 1) (nxt h 0 a)"
    by (subst len_loop.simps) (use a in \<open>simp add: get_forward_def\<close>)
  also have "\<dots> = Some (Inr (cnt + 1 + length xs))"
    by (rule Cons.IH [OF rest])
  finally show ?case by simp
qed

lemma rep_level0:
  assumes "rep s xs"
  shows "get_forward (heap s) (header s) 0 = Inr (nxt (heap s) 0 (header s))"
    and "chain (heap s) 0 (nxt (heap s) 0 (header s)) xs None"
proof -
  from assms show "get_forward (heap s) (header s) 0 = Inr (nxt (heap s) 0 (header s))"
    by (simp add: rep_def get_forward_def)
  from rep_chain [OF assms, of 0] lane_0 [OF assms, of xs]
  show "chain (heap s) 0 (nxt (heap s) 0 (header s)) xs None" by simp
qed

lemma display_rep: "rep s xs \<Longrightarrow> display s = Some (Inr (items (heap s) xs))"
  using display_loop_chain [OF rep_level0(2), of s xs "[]"]
  by (simp add: display_def rep_level0(1))

lemma len_rep: "rep s xs \<Longrightarrow> len s = Some (Inr (length xs))"
  using len_loop_chain [OF rep_level0(2), of s xs 0]
  by (simp add: len_def rep_level0(1))

lemma search_absent:
  assumes "rep s (lo @ hi)" "\<forall>a\<in>set lo. keyof (heap s) a < k" "\<forall>a\<in>set hi. k < keyof (heap s) a"
  shows "search k s = Some (Inr None)"
proof -
  from assms(3) have ge: "\<forall>a\<in>set hi. \<not> keyof (heap s) a < k" by auto
  from assms(3) have "hi \<noteq> [] \<longrightarrow> keyof (heap s) (hd hi) \<noteq> k" by (cases hi) auto
  then show ?thesis
    using search_rep [OF assms(1,2) ge] by (cases hi) auto
qed

lemma search_present:
  assumes "rep s (lo @ b # hi)" "\<forall>a\<in>set lo. keyof (heap s) a < k" "keyof (heap s) b = k"
    "\<forall>a\<in>set hi. k < keyof (heap s) a"
  shows "search k s = Some (Inr (val (heap s ! b)))"
proof -
  from assms(3,4) have ge: "\<forall>a\<in>set (b # hi). \<not> keyof (heap s) a < k" by auto
  show ?thesis
    using search_rep [OF assms(1,2) ge] assms(3) by simp
qed

lemma delete_absent:
  assumes r: "rep s (lo @ hi)"
    and lo: "\<forall>a\<in>set lo. keyof (heap s) a < k"
    and hi: "\<forall>a\<in>set hi. k < keyof (heap s) a"
  shows "delete k s = Some (Inr (False, s))"
proof -
  have ge: "\<forall>a\<in>set hi. \<not> keyof (heap s) a < k" using hi by auto
  have fu: "find_updates k s = Some (Inr (updates s lo (level s + 1)))"
    by (rule find_updates_rep [OF r lo ge])
  have gu: "get_update (updates s lo (level s + 1)) 0 = Inr (pred_at s lo 0)"
    by (rule get_update_updates) simp_all
  have gf: "get_forward (heap s) (pred_at s lo 0) 0 = Inr (case hi of [] \<Rightarrow> None | b # _ \<Rightarrow> Some b)"
    by (rule probe_rep [OF r])
  have "(case hi of [] \<Rightarrow> False | b # _ \<Rightarrow> keyof (heap s) b = k) = False"
    using hi by (cases hi) auto
  with is_key_probe [OF r, of k]
  have ik: "is_key (heap s) (case hi of [] \<Rightarrow> None | b # _ \<Rightarrow> Some b) k = Inr False" by simp
  from fu gu gf ik show ?thesis by (simp add: delete_def)
qed

lemma delete_present:
  fixes s :: "('k::linorder, 'v) skiplist"
  assumes r: "rep s (lo @ x # hi)"
    and lo: "\<forall>a\<in>set lo. keyof (heap s) a < k"
    and x: "keyof (heap s) x = k"
    and hi: "\<forall>a\<in>set hi. k < keyof (heap s) a"
  shows "\<exists>h' l. delete k s = Some (Inr (True, s\<lparr>level := l, heap := h'\<rparr>)) \<and>
           rep (s\<lparr>level := l, heap := h'\<rparr>) (lo @ hi) \<and> same_shape (heap s) h' \<and> l \<le> level s"
proof -
  let ?h = "heap s" and ?upd = "updates s lo (level s + 1)"
  have ge: "\<forall>a\<in>set (x # hi). \<not> keyof ?h a < k" using x hi by auto
  from r have xl: "x < length ?h" and xh: "ht ?h x \<le> level s + 1"
    and lm: "level s \<le> max_level s"
    and hdr: "header s < length ?h" "ht ?h (header s) = max_level s + 1" "header s \<noteq> x"
    by (auto simp: rep_def)
  have fu: "find_updates k s = Some (Inr ?upd)"
    by (rule find_updates_rep [OF r lo ge])
  have gu: "get_update ?upd 0 = Inr (pred_at s lo 0)"
    by (rule get_update_updates) simp_all
  have gf: "get_forward ?h (pred_at s lo 0) 0 = Inr (Some x)"
    using probe_rep [OF r] by simp
  have ik: "is_key ?h (Some x) k = Inr True"
    using is_key_probe [OF r, of k] x by simp
  have pne: "pred_at s lo j \<noteq> x" for j
    using pred_at_mem_lo [of s lo j] rep_distinct [OF r] by auto
  have pre: "\<forall>j\<in>set [0 ..< level s + 1]. get_update ?upd j = Inr (pred_at s lo j) \<and>
      pred_at s lo j < length ?h \<and> j < ht ?h (pred_at s lo j) \<and> pred_at s lo j \<noteq> x \<and>
      (nxt ?h j (pred_at s lo j) = Some x \<longrightarrow> j < ht ?h x)"
  proof
    fix j assume "j \<in> set [0 ..< level s + 1]"
    then have j: "j \<le> level s" by auto
    with lm have jm: "j \<le> max_level s" by simp
    have "get_update ?upd j = Inr (pred_at s lo j)"
      using j jm by (intro get_update_updates) auto
    moreover from pred_next [OF r jm]
    have "pred_at s lo j < length ?h" "j < ht ?h (pred_at s lo j)" by auto
    moreover note pne [of j] pred_points [OF r jm]
    ultimately show "get_update ?upd j = Inr (pred_at s lo j) \<and>
      pred_at s lo j < length ?h \<and> j < ht ?h (pred_at s lo j) \<and> pred_at s lo j \<noteq> x \<and>
      (nxt ?h j (pred_at s lo j) = Some x \<longrightarrow> j < ht ?h x)" by simp
  qed
  have "distinct [0 ..< level s + 1]" by simp
  from unlink_effect [OF this xl pre]
  obtain h' where un: "unlink x ?upd [0 ..< level s + 1] ?h = Inr h'"
    and shape: "same_shape ?h h'"
    and slots: "\<forall>b j. nxt h' j b =
        (if j \<in> set [0 ..< level s + 1] \<and> b = pred_at s lo j \<and> nxt ?h j (pred_at s lo j) = Some x
         then nxt ?h j x else nxt ?h j b)"
    by blast
  have slots': "\<forall>b j. nxt h' j b =
        (if b = pred_at s lo j \<and> j < ht ?h x then nxt ?h j x else nxt ?h j b)"
  proof (intro allI)
    fix b j
    show "nxt h' j b = (if b = pred_at s lo j \<and> j < ht ?h x then nxt ?h j x else nxt ?h j b)"
    proof (cases "j \<le> level s")
      case True
      with lm have "j \<le> max_level s" by simp
      from pred_points [OF r this] True slots show ?thesis by auto
    next
      case False
      with xh have "\<not> j < ht ?h x" by simp
      with False slots show ?thesis by auto
    qed
  qed
  have "header s < length h'" "level s < ht h' (header s)"
    using hdr lm shape by (simp_all add: same_shape_def)
  from shrink_level_effect [OF this]
  obtain l where l: "shrink_level h' (header s) (level s) = Inr l" "l \<le> level s"
    "\<forall>j. l < j \<and> j \<le> level s \<longrightarrow> nxt h' j (header s) = None"
    "0 < l \<longrightarrow> nxt h' l (header s) \<noteq> None"
    by blast
  have res: "delete k s = Some (Inr (True, s\<lparr>level := l, heap := h'\<rparr>))"
    using fu gu gf ik un l(1) by (simp add: delete_def del: upt_Suc)
  have "rep (s\<lparr>level := l, heap := h'\<rparr>) (lo @ hi)"
    by (rule rep_delete [OF r shape slots' l(2,3,4)])
  with res shape l(2) show ?thesis by blast
qed

lemma random_level_loop_spec:
  "lvl \<le> max_level s \<Longrightarrow>
   lvl \<le> fst (random_level_loop s lvl rnd) \<and>
   fst (random_level_loop s lvl rnd) \<le> max_level s \<and>
   (\<forall>i < fst (random_level_loop s lvl rnd) - lvl. rnd !! i < p s) \<and>
   (fst (random_level_loop s lvl rnd) < max_level s \<longrightarrow>
      \<not> rnd !! (fst (random_level_loop s lvl rnd) - lvl) < p s) \<and>
   snd (random_level_loop s lvl rnd) = sdrop (fst (random_level_loop s lvl rnd) - lvl + 1) rnd"
proof (induction s lvl rnd rule: random_level_loop.induct)
  case (1 s lvl rnd)
  show ?case
  proof (cases "shd rnd < p s \<and> lvl < max_level s")
    case False
    have eq: "random_level_loop s lvl rnd = (lvl, stl rnd)"
      by (subst random_level_loop.simps, subst if_not_P [OF False], rule refl)
    from False "1.prems" show ?thesis unfolding eq by auto
  next
    case True
    have eq: "random_level_loop s lvl rnd = random_level_loop s (lvl + 1) (stl rnd)"
      by (subst random_level_loop.simps, subst if_P [OF True], rule refl)
    let ?r = "fst (random_level_loop s (lvl + 1) (stl rnd))"
    from True have "lvl + 1 \<le> max_level s" by simp
    from "1.IH" [OF True this]
    have ih: "lvl + 1 \<le> ?r" "?r \<le> max_level s"
      "\<forall>i < ?r - (lvl + 1). stl rnd !! i < p s"
      "?r < max_level s \<longrightarrow> \<not> stl rnd !! (?r - (lvl + 1)) < p s"
      "snd (random_level_loop s (lvl + 1) (stl rnd)) = sdrop (?r - (lvl + 1) + 1) (stl rnd)"
      by blast+
    from ih(1) have d: "?r - lvl = Suc (?r - (lvl + 1))" by simp
    have a: "\<forall>i < ?r - lvl. rnd !! i < p s"
    proof (intro allI impI)
      fix i assume i: "i < ?r - lvl"
      show "rnd !! i < p s"
      proof (cases i)
        case 0
        with True show ?thesis by simp
      next
        case (Suc i')
        with i d have "i' < ?r - (lvl + 1)" by simp
        with ih(3) Suc show ?thesis by simp
      qed
    qed
    have b: "?r < max_level s \<longrightarrow> \<not> rnd !! (?r - lvl) < p s"
      using ih(4) d by simp
    have c: "snd (random_level_loop s (lvl + 1) (stl rnd)) = sdrop (?r - lvl + 1) rnd"
      using ih(5) d by simp
    from ih(1,2) a b c show ?thesis unfolding eq by simp
  qed
qed

lemma rep_init: "rep (init ml pr) []"
  by (auto simp: rep_def init_def new_node_def lane_def nth_Cons')

lemma rep_split:
  assumes "rep s xs"
  shows "(\<exists>lo hi. xs = lo @ hi \<and> (\<forall>a\<in>set lo. keyof (heap s) a < k) \<and>
            (\<forall>a\<in>set hi. k < keyof (heap s) a)) \<or>
         (\<exists>lo b hi. xs = lo @ b # hi \<and> (\<forall>a\<in>set lo. keyof (heap s) a < k) \<and>
            keyof (heap s) b = k \<and> (\<forall>a\<in>set hi. k < keyof (heap s) a))"
proof -
  from assms have "sorted_wrt (<) (map (keyof (heap s)) xs)" by (simp add: rep_def)
  then show ?thesis by (rule sorted_split)
qed

lemma entries_rep: "rep s xs \<Longrightarrow> entries s = items (heap s) xs"
  by (simp add: entries_def display_rep)

lemma linked_rep:
  assumes "rep s xs"
  shows "linked k s \<longleftrightarrow> (\<exists>a\<in>set xs. keyof (heap s) a = k)"
proof -
  have "Some k \<in> fst ` set (items (heap s) xs) \<longleftrightarrow> (\<exists>a\<in>set xs. key (heap s ! a) = Some k)"
    by (force simp: items_def image_iff)
  also have "\<dots> \<longleftrightarrow> (\<exists>a\<in>set xs. keyof (heap s) a = k)"
    using rep_key [OF assms] by (metis option.sel)
  finally show ?thesis by (simp add: linked_def entries_rep [OF assms])
qed

lemma linked_split:
  assumes r: "rep s xs" and l: "linked k s"
  shows "\<exists>lo b hi. xs = lo @ b # hi \<and> (\<forall>a\<in>set lo. keyof (heap s) a < k) \<and>
            keyof (heap s) b = k \<and> (\<forall>a\<in>set hi. k < keyof (heap s) a)"
proof -
  from l obtain a where a: "a \<in> set xs" "keyof (heap s) a = k"
    unfolding linked_rep [OF r] by blast
  from rep_split [OF r, of k] show ?thesis
  proof
    assume "\<exists>lo hi. xs = lo @ hi \<and> (\<forall>a\<in>set lo. keyof (heap s) a < k) \<and>
            (\<forall>a\<in>set hi. k < keyof (heap s) a)"
    then obtain lo hi where "xs = lo @ hi" "\<forall>a\<in>set lo. keyof (heap s) a < k"
      "\<forall>a\<in>set hi. k < keyof (heap s) a" by blast
    with a have False by auto
    then show ?thesis ..
  qed
qed

lemma unlinked_split:
  assumes r: "rep s xs" and l: "\<not> linked k s"
  shows "\<exists>lo hi. xs = lo @ hi \<and> (\<forall>a\<in>set lo. keyof (heap s) a < k) \<and>
            (\<forall>a\<in>set hi. k < keyof (heap s) a)"
proof -
  from rep_split [OF r, of k] show ?thesis
  proof
    assume "\<exists>lo b hi. xs = lo @ b # hi \<and> (\<forall>a\<in>set lo. keyof (heap s) a < k) \<and>
            keyof (heap s) b = k \<and> (\<forall>a\<in>set hi. k < keyof (heap s) a)"
    then obtain lo b hi where "xs = lo @ b # hi" "keyof (heap s) b = k" by blast
    then have "\<exists>a\<in>set xs. keyof (heap s) a = k" by auto
    with l linked_rep [OF r, of k] have False by simp
    then show ?thesis ..
  qed
qed

text \<open>What \<open>insert\<close> does, in both of its branches.\<close>

lemma insert_spec:
  fixes s :: "('k::linorder, 'v) skiplist"
  assumes r: "rep s xs"
  shows "\<exists>s' rnd' xs'. insert_sl k v rnd s = Some (Inr (s', rnd')) \<and> rep s' xs' \<and>
           search k s' = Some (Inr v) \<and> (Some k, v) \<in> set (items (heap s') xs')"
proof -
  let ?h = "heap s"
  from r have nodes: "\<forall>a\<in>set xs. a < length ?h" by (simp add: rep_def)
  from rep_split [OF r, of k] show ?thesis
  proof (elim disjE exE conjE)
    fix lo hi
    assume xs: "xs = lo @ hi" and lo: "\<forall>a\<in>set lo. keyof ?h a < k"
      and hi: "\<forall>a\<in>set hi. k < keyof ?h a"
    let ?lv = "if fst (random_level s rnd) > level s then fst (random_level s rnd) else level s"
    from insert_fresh [OF r [unfolded xs] lo hi, of v rnd]
    obtain h' where res: "insert_sl k v rnd s =
           Some (Inr (s\<lparr>level := ?lv, heap := h'\<rparr>, snd (random_level s rnd)))"
      and r': "rep (s\<lparr>level := ?lv, heap := h'\<rparr>) (lo @ length ?h # hi)"
      and new: "key (h' ! length ?h) = Some k" "val (h' ! length ?h) = v"
      and old: "\<forall>a<length ?h. key (h' ! a) = key (?h ! a) \<and> val (h' ! a) = val (?h ! a)"
      by blast
    let ?s' = "s\<lparr>level := ?lv, heap := h'\<rparr>"
    have lo': "\<forall>a\<in>set lo. keyof (heap ?s') a < k" using lo old nodes xs by simp
    have hi': "\<forall>a\<in>set hi. k < keyof (heap ?s') a" using hi old nodes xs by simp
    have kn: "keyof (heap ?s') (length ?h) = k" using new by simp
    have "search k ?s' = Some (Inr (val (heap ?s' ! length ?h)))"
      by (rule search_present [OF r' lo' kn hi'])
    then have "search k ?s' = Some (Inr v)" using new by simp
    moreover have "(Some k, v) \<in> set (items (heap ?s') (lo @ length ?h # hi))"
      using new by (simp add: items_def)
    ultimately show ?thesis using res r' by blast
  next
    fix lo b hi
    assume xs: "xs = lo @ b # hi" and lo: "\<forall>a\<in>set lo. keyof ?h a < k"
      and b: "keyof ?h b = k" and hi: "\<forall>a\<in>set hi. k < keyof ?h a"
    let ?s' = "s\<lparr>heap := ?h[b := (?h ! b)\<lparr>val := v\<rparr>]\<rparr>"
    from nodes xs have bl: "b < length ?h" by simp
    have res: "insert_sl k v rnd s = Some (Inr (?s', rnd))"
      by (rule insert_present(1) [OF r [unfolded xs] lo b hi])
    have r': "rep ?s' (lo @ b # hi)"
      by (rule insert_present(2) [OF r [unfolded xs] lo b hi])
    have keys: "keyof (heap ?s') a = keyof ?h a" for a
      using bl by (simp add: nth_list_update)
    have lo': "\<forall>a\<in>set lo. keyof (heap ?s') a < k" using lo by (simp only: keys)
    have hi': "\<forall>a\<in>set hi. k < keyof (heap ?s') a" using hi by (simp only: keys)
    have b': "keyof (heap ?s') b = k" using b by (simp only: keys)
    have "search k ?s' = Some (Inr (val (heap ?s' ! b)))"
      by (rule search_present [OF r' lo' b' hi'])
    then have "search k ?s' = Some (Inr v)" using bl by simp
    moreover have "key (heap ?s' ! b) = Some k"
      using rep_key [OF r', of b] keys [of b] b by simp
    then have "(Some k, v) \<in> set (items (heap ?s') (lo @ b # hi))"
      using bl by (simp add: items_def)
    ultimately show ?thesis using res r' by blast
  qed
qed

text \<open>What \<open>delete\<close> does, in both of its branches.\<close>

lemma delete_spec:
  fixes s :: "('k::linorder, 'v) skiplist"
  assumes r: "rep s xs"
  shows "\<exists>b s' xs'. delete k s = Some (Inr (b, s')) \<and> rep s' xs'"
proof -
  from rep_split [OF r, of k] show ?thesis
  proof (elim disjE exE conjE)
    fix lo hi
    assume xs: "xs = lo @ hi" and lo: "\<forall>a\<in>set lo. keyof (heap s) a < k"
      and hi: "\<forall>a\<in>set hi. k < keyof (heap s) a"
    from delete_absent [OF r [unfolded xs] lo hi] r show ?thesis by blast
  next
    fix lo b hi
    assume xs: "xs = lo @ b # hi" and lo: "\<forall>a\<in>set lo. keyof (heap s) a < k"
      and b: "keyof (heap s) b = k" and hi: "\<forall>a\<in>set hi. k < keyof (heap s) a"
    from delete_present [OF r [unfolded xs] lo b hi] show ?thesis by blast
  qed
qed

text \<open>Every state of a skip list satisfies the invariant.\<close>

lemma reachable_rep: "reachable s \<Longrightarrow> \<exists>xs. rep s xs"
proof (induction rule: reachable.induct)
  case (reach_init ml pr)
  show ?case using rep_init by blast
next
  case (reach_insert s k v rnd s' rnd')
  then obtain xs where "rep s xs" by blast
  from insert_spec [OF this, of k v rnd] reach_insert.hyps(2) show ?case by auto
next
  case (reach_delete s k b s')
  then obtain xs where "rep s xs" by blast
  from delete_spec [OF this, of k] reach_delete.hyps(2) show ?case by auto
qed

lemma lane_at_rep:
  assumes "rep s xs" "i \<le> max_level s"
  shows "lane_at s i (lane (heap s) i xs)"
  using assms by (simp add: lane_at_def get_forward_def rep_def)

lemma lane_at_unique: "lane_at s i xs \<Longrightarrow> lane_at s i ys \<Longrightarrow> xs = ys"
  by (auto simp: lane_at_def split: sum.splits dest: chain_unique)

lemma lane_at_0:
  assumes "rep s xs" "lane_at s 0 ys"
  shows "ys = xs"
proof -
  from lane_at_rep [OF assms(1), of 0] lane_0 [OF assms(1), of xs]
  have "lane_at s 0 xs" by simp
  with assms(2) show ?thesis by (rule lane_at_unique)
qed

lemma lane_keys:
  assumes "rep s xs"
  shows "map (\<lambda>a. key (heap s ! a)) (lane (heap s) i xs) =
           map Some (map (keyof (heap s)) (lane (heap s) i xs))"
    and "sorted_wrt (<) (map (keyof (heap s)) (lane (heap s) i xs))"
proof -
  have "\<forall>a\<in>set (lane (heap s) i xs). key (heap s ! a) = Some (keyof (heap s) a)"
    using rep_key [OF assms] lane_subset [of "heap s" i xs] by blast
  then show "map (\<lambda>a. key (heap s ! a)) (lane (heap s) i xs) =
           map Some (map (keyof (heap s)) (lane (heap s) i xs))"
    by simp
  from assms have "sorted_wrt (<) (map (keyof (heap s)) xs)" by (simp add: rep_def)
  then show "sorted_wrt (<) (map (keyof (heap s)) (lane (heap s) i xs))"
    unfolding lane_def sorted_wrt_map by (rule sorted_wrt_filter)
qed

text \<open>A forward reference of the header or of a linked node is \<open>None\<close> or a linked node.\<close>

lemma links_closed:
  assumes r: "rep s xs" and b: "b \<in> set (header s # xs)" and j: "j < ht (heap s) b"
    and y: "nxt (heap s) j b = Some y"
  shows "y \<in> set xs"
proof -
  let ?h = "heap s"
  from r have lm: "level s \<le> max_level s" and hh: "ht ?h (header s) = max_level s + 1"
    and nodes: "\<forall>a\<in>set xs. ht ?h a \<le> level s + 1"
    by (simp_all add: rep_def)
  from b j lm hh nodes have jm: "j \<le> max_level s" by auto
  from b j have "b \<in> set (header s # lane ?h j xs)" by (auto simp: lane_def)
  from split_after_member [OF this] obtain c1 c2 where
    eq: "header s # lane ?h j xs = c1 @ b # c2" and c2: "set c2 \<subseteq> set (lane ?h j xs)"
    by blast
  from rep_chain [OF r jm] have "chain ?h j (Some (header s)) (c1 @ b # c2) None"
    by (simp only: eq)
  then have "chain ?h j (nxt ?h j b) c2 None"
    unfolding chain_append by auto
  with y have "y \<in> set c2" by (cases c2) auto
  with c2 lane_subset [of ?h j xs] show ?thesis by auto
qed

lemma getitem_search:
  "search k s = Some (Inr r) \<Longrightarrow>
   getitem k s = (if r = None then Some (Inl KeyError) else Some (Inr r))"
  by (simp add: getitem_def)

lemma contains_search:
  "search k s = Some (Inr r) \<Longrightarrow> contains k s = Some (Inr (r \<noteq> None))"
  by (simp add: contains_def)


text \<open>What \<open>delete\<close> does to a linked key.\<close>

lemma delete_linked:
  fixes s :: "('k::linorder, 'v) skiplist"
  assumes r: "rep s xs" and l: "linked k s"
  shows "\<exists>lo x hi s'. xs = lo @ x # hi \<and> key (heap s ! x) = Some k \<and>
           delete k s = Some (Inr (True, s')) \<and> rep s' (lo @ hi) \<and>
           same_shape (heap s) (heap s') \<and> level s' \<le> level s \<and>
           max_level s' = max_level s \<and> header s' = header s \<and>
           search k s' = Some (Inr None) \<and> x \<notin> set (lo @ hi)"
proof -
  from linked_split [OF r l] obtain lo x hi where xs: "xs = lo @ x # hi"
    and lo: "\<forall>a\<in>set lo. keyof (heap s) a < k" and x: "keyof (heap s) x = k"
    and hi: "\<forall>a\<in>set hi. k < keyof (heap s) a" by blast
  from delete_present [OF r [unfolded xs] lo x hi] obtain h' lv where
    res: "delete k s = Some (Inr (True, s\<lparr>level := lv, heap := h'\<rparr>))"
    and r': "rep (s\<lparr>level := lv, heap := h'\<rparr>) (lo @ hi)"
    and shape: "same_shape (heap s) h'" and lv: "lv \<le> level s" by blast
  let ?s' = "s\<lparr>level := lv, heap := h'\<rparr>"
  have keys: "keyof (heap ?s') a = keyof (heap s) a" for a
    using shape by (simp add: same_shape_def)
  have lo': "\<forall>a\<in>set lo. keyof (heap ?s') a < k" using lo by (simp only: keys)
  have hi': "\<forall>a\<in>set hi. k < keyof (heap ?s') a" using hi by (simp only: keys)
  have sr: "search k ?s' = Some (Inr None)"
    by (rule search_absent [OF r' lo' hi'])
  have kx: "key (heap s ! x) = Some k"
    using rep_key [OF r, of x] xs x by simp
  have nx: "x \<notin> set (lo @ hi)"
    using rep_distinct [OF r] xs by auto
  from xs kx res r' shape lv sr nx show ?thesis
    by (intro exI [of _ lo] exI [of _ x] exI [of _ hi] exI [of _ ?s']) simp
qed

lemma rep_key_inj:
  assumes r: "rep s xs" and "a \<in> set xs" "b \<in> set xs" "key (heap s ! a) = key (heap s ! b)"
  shows "a = b"
proof -
  from r have "sorted_wrt (<) (map (keyof (heap s)) xs)" by (simp add: rep_def)
  then have "distinct (map (keyof (heap s)) xs)" by (simp add: strict_sorted_iff)
  then have "inj_on (keyof (heap s)) (set xs)" by (simp add: distinct_map)
  with assms(2-4) show ?thesis by (auto simp: inj_on_def)
qed

text \<open>The current level is the highest level on which the header has a successor.\<close>

lemma rep_top:
  assumes r: "rep s xs"
  shows "0 < level s \<longrightarrow> (\<exists>a. get_forward (heap s) (header s) (level s) = Inr (Some a))"
    and "\<forall>j. level s < j \<and> j \<le> max_level s \<longrightarrow> get_forward (heap s) (header s) j = Inr None"
proof -
  let ?h = "heap s"
  from r have hdr: "header s < length ?h" "ht ?h (header s) = max_level s + 1"
    and lm: "level s \<le> max_level s"
    and nodes: "\<forall>a\<in>set xs. ht ?h a \<le> level s + 1"
    and top: "0 < level s \<longrightarrow> (\<exists>a\<in>set xs. level s < ht ?h a)"
    by (simp_all add: rep_def)
  have gf: "get_forward ?h (header s) j = Inr (nxt ?h j (header s))" if "j \<le> max_level s" for j
    using that hdr by (simp add: get_forward_def)
  show "0 < level s \<longrightarrow> (\<exists>a. get_forward ?h (header s) (level s) = Inr (Some a))"
  proof
    assume "0 < level s"
    with top obtain a where "a \<in> set xs" "level s < ht ?h a" by blast
    then have "a \<in> set (lane ?h (level s) xs)" by (simp add: lane_def)
    then have ne: "lane ?h (level s) xs \<noteq> []" by auto
    from rep_chain [OF r lm] have "chain ?h (level s) (nxt ?h (level s) (header s))
       (lane ?h (level s) xs) None" by simp
    with ne have "\<exists>a. nxt ?h (level s) (header s) = Some a"
      by (cases "lane ?h (level s) xs") auto
    with gf [OF lm] show "\<exists>a. get_forward ?h (header s) (level s) = Inr (Some a)" by auto
  qed
  show "\<forall>j. level s < j \<and> j \<le> max_level s \<longrightarrow> get_forward ?h (header s) j = Inr None"
  proof (intro allI impI)
    fix j assume j: "level s < j \<and> j \<le> max_level s"
    with nodes have "lane ?h j xs = []" by (auto simp: lane_def filter_empty_conv)
    moreover from rep_chain [OF r, of j] j
    have "chain ?h j (nxt ?h j (header s)) (lane ?h j xs) None" by simp
    ultimately have "nxt ?h j (header s) = None" by simp
    with gf [of j] j show "get_forward ?h (header s) j = Inr None" by simp
  qed
qed

lemma delete_sole_top:
  fixes s :: "('k::linorder, 'v) skiplist"
  assumes r: "rep s xs" and pos: "0 < level s" and sole: "lane_at s (level s) [x]"
    and kx: "key (heap s ! x) = Some k" and del: "delete k s = Some (Inr (True, s'))"
  shows "level s' < level s \<and> (\<exists>ys. rep s' ys)"
proof -
  let ?h = "heap s"
  from r have lm: "level s \<le> max_level s" by (simp add: rep_def)
  from lane_at_rep [OF r lm] sole have lane: "lane ?h (level s) xs = [x]"
    by (rule lane_at_unique)
  then have "x \<in> set (lane ?h (level s) xs)" by simp
  with lane_subset [of ?h "level s" xs] have xin: "x \<in> set xs" by auto
  from kx have "keyof ?h x = k" by simp
  with xin have "\<exists>a\<in>set xs. keyof ?h a = k" by blast
  then have l: "linked k s" by (simp add: linked_rep [OF r])
  from delete_linked [OF r l] del obtain lo y hi where
    xs: "xs = lo @ y # hi" and ky: "key (?h ! y) = Some k"
    and r': "rep s' (lo @ hi)" and shape: "same_shape ?h (heap s')"
    and le: "level s' \<le> level s" and ny: "y \<notin> set (lo @ hi)"
    by auto
  from xs have "y \<in> set xs" by simp
  from rep_key_inj [OF r xin this] kx ky have xy: "x = y" by simp
  have "level s' \<noteq> level s"
  proof
    assume eq: "level s' = level s"
    with pos r' obtain a where a: "a \<in> set (lo @ hi)" "level s < ht (heap s') a"
      by (auto simp: rep_def)
    with shape have "level s < ht ?h a" by (simp add: same_shape_def)
    with a(1) xs have "a \<in> set (lane ?h (level s) xs)" by (auto simp: lane_def)
    with lane have "a = x" by simp
    with a(1) ny xy show False by simp
  qed
  with le r' show ?thesis by auto
qed

lemmas run_defs =
  insert_sl_def delete_def search_def find_updates_def walk.simps len_def len_loop.simps
  display_def display_loop.simps get_forward_def set_forward_def get_update_def set_update_def
  key_lt_def key_eq_def is_key_def get_val_def get_key_def set_val_def new_node_def init_def
  random_level_def random_level_loop.simps splice_at_def unlink_at_def contains_def getitem_def
  delitem_def lane_at_def entries_def linked_def upt_rec

lemma ex_one_insert:
  "insert_sl 5 (Some 50) (sconst 0) (init 1 (1 / 2)) = Some (Inr (ex_one, sconst 0))"
  by (simp add: run_defs ex_one_def)

lemma ex_two_insert:
  "insert_sl 7 (Some 70) (sconst 1) ex_one = Some (Inr (ex_two, sconst 1))"
  by (simp add: run_defs ex_one_def ex_two_def)

lemma ex_two_delete: "delete 5 ex_two = Some (Inr (True, ex_two_del))"
  by (simp add: run_defs ex_two_def ex_two_del_def)

lemma ex_none_insert:
  "insert_sl 5 None (sconst 1) (init 1 (1 / 2)) = Some (Inr (ex_none, sconst 1))"
  by (simp add: run_defs ex_none_def)

lemma reachable_ex_one: "reachable ex_one"
  by (rule reach_insert [OF reach_init ex_one_insert])

lemma reachable_ex_two: "reachable ex_two"
  by (rule reach_insert [OF reachable_ex_one ex_two_insert])

lemma reachable_ex_none: "reachable ex_none"
  by (rule reach_insert [OF reach_init ex_none_insert])

lemma ex_two_lanes: "lane_at ex_two 0 [1, 2]" "lane_at ex_two 1 [1]"
  by (simp_all add: run_defs ex_two_def)

lemma ex_two_del_lane: "lane_at ex_two_del 0 [2]"
  by (simp add: run_defs ex_two_del_def)

lemma ex_two_entries: "entries ex_two = [(Some 5, Some 50), (Some 7, Some 70)]"
  by (simp add: run_defs ex_two_def)

lemma ex_none_display: "display ex_none = Some (Inr [(Some 5, None)])"
  by (simp add: run_defs ex_none_def)

section \<open>The claims\<close>

text \<open>
  Claim C1. In every state of a skip list, for every key \<open>k\<close> and value \<open>v\<close>, the call
  \<open>insert(k, v)\<close> returns, and \<open>search(k)\<close> on the state it leaves returns \<open>v\<close>.
\<close>

theorem insert_then_search:
  fixes s :: "('k::linorder, 'v) skiplist"
  assumes "reachable s"
  shows "\<exists>s' rnd'. insert_sl k v rnd s = Some (Inr (s', rnd')) \<and> search k s' = Some (Inr v)"
proof -
  from reachable_rep [OF assms] obtain xs where "rep s xs" ..
  from insert_spec [OF this, of k v rnd] show ?thesis by blast
qed

theorem insert_then_search_witness:
  "reachable ex_one \<and> insert_sl 7 (Some 70) (sconst 1) ex_one = Some (Inr (ex_two, sconst 1)) \<and>
   search 7 ex_two = Some (Inr (Some 70))"
proof -
  from insert_then_search [OF reachable_ex_one, of 7 "Some 70" "sconst 1"]
  obtain s' rnd' where "insert_sl 7 (Some 70) (sconst 1) ex_one = Some (Inr (s', rnd'))"
    and "search 7 s' = Some (Inr (Some 70))" by blast
  with ex_two_insert have "search 7 ex_two = Some (Inr (Some 70))" by simp
  with reachable_ex_one ex_two_insert show ?thesis by simp
qed

text \<open>
  Claim C2. In every state: when a node with key \<open>k\<close> is linked, \<open>delete(k)\<close> returns true,
  \<open>search(k)\<close> returns the absent result afterwards and \<open>len()\<close> is one less than before;
  when no node with key \<open>k\<close> is linked, \<open>delete(k)\<close> returns false and the state it leaves
  is the state it found: every node, every link and the current level.
\<close>

theorem delete_correct:
  fixes s :: "('k::linorder, 'v) skiplist"
  assumes "reachable s"
  shows "(linked k s \<longrightarrow>
           (\<exists>s' n. delete k s = Some (Inr (True, s')) \<and> search k s' = Some (Inr None) \<and>
              len s = Some (Inr (Suc n)) \<and> len s' = Some (Inr n))) \<and>
         (\<not> linked k s \<longrightarrow> delete k s = Some (Inr (False, s)))"
proof (intro conjI impI)
  from reachable_rep [OF assms] obtain xs where r: "rep s xs" ..
  {
    assume "linked k s"
    from delete_linked [OF r this] obtain lo x hi s' where xs: "xs = lo @ x # hi"
      and d: "delete k s = Some (Inr (True, s'))" and r': "rep s' (lo @ hi)"
      and sr: "search k s' = Some (Inr None)" by blast
    from len_rep [OF r] xs have "len s = Some (Inr (Suc (length (lo @ hi))))" by simp
    with d sr len_rep [OF r']
    show "\<exists>s' n. delete k s = Some (Inr (True, s')) \<and> search k s' = Some (Inr None) \<and>
              len s = Some (Inr (Suc n)) \<and> len s' = Some (Inr n)" by blast
  }
  {
    assume "\<not> linked k s"
    from unlinked_split [OF r this] obtain lo hi where "xs = lo @ hi"
      "\<forall>a\<in>set lo. keyof (heap s) a < k" "\<forall>a\<in>set hi. k < keyof (heap s) a" by blast
    with r show "delete k s = Some (Inr (False, s))" by (auto intro: delete_absent)
  }
qed

theorem delete_correct_witness:
  "reachable ex_two \<and> linked 5 ex_two \<and> delete 5 ex_two = Some (Inr (True, ex_two_del)) \<and>
   search 5 ex_two_del = Some (Inr None) \<and> len ex_two = Some (Inr 2) \<and>
   len ex_two_del = Some (Inr 1) \<and>
   \<not> linked 9 ex_two \<and> delete 9 ex_two = Some (Inr (False, ex_two))"
proof -
  have l5: "linked 5 ex_two" and l9: "\<not> linked 9 ex_two"
    by (simp_all add: linked_def ex_two_entries)
  from delete_correct [OF reachable_ex_two, of 5] l5 ex_two_delete
  obtain n where "search 5 ex_two_del = Some (Inr None)" "len ex_two = Some (Inr (Suc n))"
    "len ex_two_del = Some (Inr n)" by auto
  moreover have "len ex_two = Some (Inr 2)" by (simp add: run_defs ex_two_def)
  ultimately have "search 5 ex_two_del = Some (Inr None)" "len ex_two = Some (Inr 2)"
    "len ex_two_del = Some (Inr 1)" by simp_all
  moreover from delete_correct [OF reachable_ex_two, of 9] l9
  have "delete 9 ex_two = Some (Inr (False, ex_two))" by simp
  ultimately show ?thesis using reachable_ex_two l5 l9 ex_two_delete by simp
qed



text \<open>
  Claim C4. In every state and at every level \<open>i\<close> of \<open>0..max_level\<close>, following
  \<open>forward[i]\<close> from the header ends, and the keys of the nodes it visits are strictly
  increasing.
\<close>

theorem levels_sorted:
  fixes s :: "('k::linorder, 'v) skiplist"
  assumes "reachable s" and "i \<le> max_level s"
  shows "\<exists>xs ks. lane_at s i xs \<and> map (\<lambda>a. key (heap s ! a)) xs = map Some ks \<and>
           sorted_wrt (<) ks"
proof -
  from reachable_rep [OF assms(1)] obtain xs where r: "rep s xs" ..
  from lane_at_rep [OF r assms(2)] lane_keys [OF r, of i] show ?thesis by blast
qed

theorem levels_sorted_witness:
  "reachable ex_two \<and> 0 \<le> max_level ex_two \<and> lane_at ex_two 0 [1, 2] \<and>
   (\<exists>ks. map (\<lambda>a. key (heap ex_two ! a)) [1, 2] = map Some ks \<and> sorted_wrt (<) ks)"
proof -
  from levels_sorted [OF reachable_ex_two, of 0]
  obtain xs ks where x: "lane_at ex_two 0 xs"
    and k: "map (\<lambda>a. key (heap ex_two ! a)) xs = map Some ks" "sorted_wrt (<) ks" by auto
  from x ex_two_lanes(1) have "xs = [1, 2]" by (rule lane_at_unique)
  with k reachable_ex_two ex_two_lanes(1) show ?thesis by auto
qed

text \<open>
  Claim C5. In every state and for every level \<open>i\<close> below the current level, the nodes
  reached by following \<open>forward[i + 1]\<close> from the header are among those reached by
  following \<open>forward[i]\<close>.
\<close>

theorem lanes_nested:
  fixes s :: "('k::linorder, 'v) skiplist"
  assumes "reachable s" and "i < level s"
  shows "\<exists>xs ys. lane_at s (Suc i) xs \<and> lane_at s i ys \<and> set xs \<subseteq> set ys"
proof -
  from reachable_rep [OF assms(1)] obtain xs where r: "rep s xs" ..
  from r assms(2) have "Suc i \<le> max_level s" "i \<le> max_level s" by (simp_all add: rep_def)
  from lane_at_rep [OF r this(1)] lane_at_rep [OF r this(2)] lane_Suc_subset [of "heap s" i xs]
  show ?thesis by blast
qed

theorem lanes_nested_witness:
  "reachable ex_two \<and> 0 < level ex_two \<and> lane_at ex_two (Suc 0) [1] \<and> lane_at ex_two 0 [1, 2] \<and>
   set [1::nat] \<subseteq> set [1, 2]"
proof -
  have lv: "0 < level ex_two" by (simp add: ex_two_def)
  from lanes_nested [OF reachable_ex_two lv]
  obtain xs ys where x: "lane_at ex_two (Suc 0) xs" and y: "lane_at ex_two 0 ys"
    and sub: "set xs \<subseteq> set ys" by blast
  from x ex_two_lanes(2) have "xs = [1]" by (simp add: lane_at_unique)
  moreover from y ex_two_lanes(1) have "ys = [1, 2]" by (rule lane_at_unique)
  ultimately show ?thesis using sub lv reachable_ex_two ex_two_lanes by simp
qed

text \<open>
  Claim C6. In every state the current level is the highest level on which the header has a
  successor: when it is above 0, \<open>header.forward[level]\<close> is a node, and the header has no
  successor on any level above it. In particular, when the node with key \<open>k\<close> is the only
  one linked at the current level and this level is above 0, \<open>delete(k)\<close> leaves a lower
  current level, which again is the highest level with a node, or 0.
\<close>

theorem level_occupied:
  fixes s :: "('k::linorder, 'v) skiplist"
  assumes "reachable s"
  shows "(0 < level s \<longrightarrow> (\<exists>a. get_forward (heap s) (header s) (level s) = Inr (Some a))) \<and>
         (\<forall>j. level s < j \<and> j \<le> max_level s \<longrightarrow>
            get_forward (heap s) (header s) j = Inr None) \<and>
         (\<forall>x s'. 0 < level s \<and> lane_at s (level s) [x] \<and> key (heap s ! x) = Some k \<and>
            delete k s = Some (Inr (True, s')) \<longrightarrow>
            level s' < level s \<and>
            (0 < level s' \<longrightarrow>
               (\<exists>a. get_forward (heap s') (header s') (level s') = Inr (Some a))) \<and>
            (\<forall>j. level s' < j \<and> j \<le> max_level s' \<longrightarrow>
               get_forward (heap s') (header s') j = Inr None))"
proof -
  from reachable_rep [OF assms] obtain xs where r: "rep s xs" ..
  have "level s' < level s \<and>
        (0 < level s' \<longrightarrow> (\<exists>a. get_forward (heap s') (header s') (level s') = Inr (Some a))) \<and>
        (\<forall>j. level s' < j \<and> j \<le> max_level s' \<longrightarrow> get_forward (heap s') (header s') j = Inr None)"
    if "0 < level s \<and> lane_at s (level s) [x] \<and> key (heap s ! x) = Some k \<and>
        delete k s = Some (Inr (True, s'))" for x s'
  proof -
    from that delete_sole_top [OF r, of x k s'] obtain ys
      where "level s' < level s" "rep s' ys" by blast
    with rep_top [OF this(2)] show ?thesis by blast
  qed
  with rep_top [OF r] show ?thesis by blast
qed

theorem level_occupied_witness:
  "reachable ex_two \<and> 0 < level ex_two \<and>
   (\<exists>a. get_forward (heap ex_two) (header ex_two) (level ex_two) = Inr (Some a)) \<and>
   lane_at ex_two (level ex_two) [1] \<and> key (heap ex_two ! 1) = Some 5 \<and>
   delete 5 ex_two = Some (Inr (True, ex_two_del)) \<and> level ex_two_del < level ex_two"
proof -
  have lv: "0 < level ex_two" and l1: "level ex_two = 1" and k: "key (heap ex_two ! 1) = Some 5"
    by (simp_all add: ex_two_def)
  from ex_two_lanes(2) l1 have top: "lane_at ex_two (level ex_two) [1]" by simp
  from level_occupied [OF reachable_ex_two, of 5] lv top k ex_two_delete
  have "\<exists>a. get_forward (heap ex_two) (header ex_two) (level ex_two) = Inr (Some a)"
    and "level ex_two_del < level ex_two" by blast+
  with reachable_ex_two lv top k ex_two_delete show ?thesis by simp
qed

text \<open>
  Claim C9. In every state no linked node is higher than the current level allows: its
  \<open>forward\<close> list has at most \<open>level + 1\<close> entries. And after \<open>delete(k)\<close> has removed the
  node \<open>x\<close> with key \<open>k\<close>, neither the header nor any node still linked has a forward
  reference to \<open>x\<close>, at any level.
\<close>

theorem level_bounds_heights:
  fixes s :: "('k::linorder, 'v) skiplist"
  assumes "reachable s"
  shows "(\<forall>xs a. lane_at s 0 xs \<and> a \<in> set xs \<longrightarrow> length (forward (heap s ! a)) \<le> level s + 1) \<and>
         (\<forall>xs x s' ys b j. lane_at s 0 xs \<and> x \<in> set xs \<and> key (heap s ! x) = Some k \<and>
            delete k s = Some (Inr (True, s')) \<and> lane_at s' 0 ys \<and>
            b \<in> set (header s' # ys) \<and> j < length (forward (heap s' ! b)) \<longrightarrow>
            forward (heap s' ! b) ! j \<noteq> Some x)"
proof (intro conjI allI impI)
  from reachable_rep [OF assms] obtain zs where r: "rep s zs" ..
  {
    fix xs a assume "lane_at s 0 xs \<and> a \<in> set xs"
    with lane_at_0 [OF r, of xs] have "a \<in> set zs" by simp
    with r show "length (forward (heap s ! a)) \<le> level s + 1" by (simp add: rep_def)
  }
  {
    fix xs x s' ys b j
    assume a: "lane_at s 0 xs \<and> x \<in> set xs \<and> key (heap s ! x) = Some k \<and>
            delete k s = Some (Inr (True, s')) \<and> lane_at s' 0 ys \<and>
            b \<in> set (header s' # ys) \<and> j < length (forward (heap s' ! b))"
    with lane_at_0 [OF r, of xs] have xin: "x \<in> set zs" by simp
    from a have "keyof (heap s) x = k" by simp
    with xin have "linked k s" unfolding linked_rep [OF r] by blast
    from delete_linked [OF r this] a obtain lo y hi where
      zs: "zs = lo @ y # hi" and ky: "key (heap s ! y) = Some k"
      and r': "rep s' (lo @ hi)" and ny: "y \<notin> set (lo @ hi)"
      by auto
    from zs have "y \<in> set zs" by simp
    from rep_key_inj [OF r xin this] a ky have xy: "x = y" by simp
    from a lane_at_0 [OF r', of ys] have ys: "ys = lo @ hi" by simp
    show "forward (heap s' ! b) ! j \<noteq> Some x"
    proof
      assume "forward (heap s' ! b) ! j = Some x"
      with links_closed [OF r', of b j x] a ys have "x \<in> set (lo @ hi)" by simp
      with ny xy show False by simp
    qed
  }
qed

theorem level_bounds_heights_witness:
  "reachable ex_two \<and> lane_at ex_two 0 [1, 2] \<and>
   length (forward (heap ex_two ! 1)) \<le> level ex_two + 1 \<and>
   key (heap ex_two ! 1) = Some 5 \<and> delete 5 ex_two = Some (Inr (True, ex_two_del)) \<and>
   lane_at ex_two_del 0 [2] \<and> forward (heap ex_two_del ! header ex_two_del) ! 0 \<noteq> Some 1 \<and>
   forward (heap ex_two_del ! 2) ! 0 \<noteq> Some 1"
proof -
  have k: "key (heap ex_two ! 1) = Some 5" by (simp add: ex_two_def)
  have m: "(1::nat) \<in> set [1, 2]" by simp
  note inst = level_bounds_heights [OF reachable_ex_two, of 5]
  from inst ex_two_lanes(1) m have a: "length (forward (heap ex_two ! 1)) \<le> level ex_two + 1"
    by blast
  have h: "header ex_two_del \<in> set (header ex_two_del # [2])"
    "0 < length (forward (heap ex_two_del ! header ex_two_del))"
    "2 \<in> set (header ex_two_del # [2])" "0 < length (forward (heap ex_two_del ! 2))"
    by (simp_all add: ex_two_del_def)
  from inst ex_two_lanes(1) m k ex_two_delete ex_two_del_lane h(1,2)
  have b: "forward (heap ex_two_del ! header ex_two_del) ! 0 \<noteq> Some 1" by blast
  from inst ex_two_lanes(1) m k ex_two_delete ex_two_del_lane h(3,4)
  have c: "forward (heap ex_two_del ! 2) ! 0 \<noteq> Some 1" by blast
  from a b c k reachable_ex_two ex_two_lanes(1) ex_two_delete ex_two_del_lane
  show ?thesis by simp
qed

text \<open>
  Claim C10. After \<open>insert(k, None)\<close>, in every state: the key \<open>k\<close> is linked at level 0
  with the value \<open>None\<close> and \<open>len()\<close> counts its node, while \<open>search(k)\<close> returns \<open>None\<close>,
  \<open>__contains__\<close> returns false and \<open>__getitem__\<close> raises \<open>KeyError\<close>.
\<close>

theorem insert_none_hides_key:
  fixes s :: "('k::linorder, 'v) skiplist"
  assumes "reachable s"
  shows "\<exists>s' rnd' es. insert_sl k None rnd s = Some (Inr (s', rnd')) \<and>
           display s' = Some (Inr es) \<and> (Some k, None) \<in> set es \<and>
           len s' = Some (Inr (length es)) \<and>
           search k s' = Some (Inr None) \<and> contains k s' = Some (Inr False) \<and>
           getitem k s' = Some (Inl KeyError)"
proof -
  from reachable_rep [OF assms] obtain xs where "rep s xs" ..
  from insert_spec [OF this, of k None rnd] obtain s' rnd' xs' where
    i: "insert_sl k None rnd s = Some (Inr (s', rnd'))" and r': "rep s' xs'"
    and sr: "search k s' = Some (Inr None)"
    and m: "(Some k, None) \<in> set (items (heap s') xs')" by blast
  have "len s' = Some (Inr (length (items (heap s') xs')))"
    using len_rep [OF r'] by (simp add: items_def)
  with i display_rep [OF r'] m sr getitem_search [OF sr] contains_search [OF sr]
  show ?thesis by auto
qed

theorem insert_none_hides_key_witness:
  "reachable (init 1 (1 / 2) :: (nat, nat) skiplist) \<and>
   insert_sl 5 None (sconst 1) (init 1 (1 / 2)) = Some (Inr (ex_none, sconst 1)) \<and>
   display ex_none = Some (Inr [(Some 5, None)]) \<and> len ex_none = Some (Inr 1) \<and>
   search 5 ex_none = Some (Inr None) \<and> contains 5 ex_none = Some (Inr False) \<and>
   getitem 5 ex_none = Some (Inl KeyError)"
proof -
  have r: "reachable (init 1 (1 / 2) :: (nat, nat) skiplist)" by (rule reach_init)
  from insert_none_hides_key [OF r, of 5 "sconst 1"] ex_none_insert
  obtain es where "display ex_none = Some (Inr es)" "len ex_none = Some (Inr (length es))"
    "search 5 ex_none = Some (Inr None)" "contains 5 ex_none = Some (Inr False)"
    "getitem 5 ex_none = Some (Inl KeyError)" by auto
  with ex_none_display r ex_none_insert show ?thesis by simp
qed

text \<open>
  Claim C7, as amended. In every state, \<open>__getitem__\<close> raises \<open>KeyError\<close> exactly when no
  node with key \<open>k\<close> and a value other than \<open>None\<close> is linked, and returns the stored
  value otherwise; \<open>__delitem__\<close> raises \<open>KeyError\<close> exactly when \<open>delete(k)\<close> returns
  false, which is when no node with key \<open>k\<close> is linked; and \<open>search\<close>, \<open>insert\<close> and
  \<open>delete\<close> do not raise \<open>KeyError\<close>.
\<close>

theorem keyed_access_failures:
  fixes s :: "('k::linorder, 'v) skiplist"
  assumes "reachable s"
  shows "(getitem k s = Some (Inl KeyError) \<longleftrightarrow> (\<forall>v. (Some k, Some v) \<notin> set (entries s))) \<and>
         (\<forall>v. (Some k, Some v) \<in> set (entries s) \<longrightarrow> getitem k s = Some (Inr (Some v))) \<and>
         (delitem k s = Some (Inl KeyError) \<longleftrightarrow> (\<exists>s'. delete k s = Some (Inr (False, s')))) \<and>
         (delitem k s = Some (Inl KeyError) \<longleftrightarrow> \<not> linked k s) \<and>
         search k s \<noteq> Some (Inl KeyError) \<and> insert_sl k w rnd s \<noteq> Some (Inl KeyError) \<and>
         delete k s \<noteq> Some (Inl KeyError)"
proof -
  from reachable_rep [OF assms] obtain xs where r: "rep s xs" ..
  have ins: "insert_sl k w rnd s \<noteq> Some (Inl KeyError)"
    using insert_spec [OF r, of k w rnd] by auto
  show ?thesis
  proof (cases "linked k s")
    case False
    from unlinked_split [OF r this] obtain lo hi where xs: "xs = lo @ hi"
      and lo: "\<forall>a\<in>set lo. keyof (heap s) a < k" and hi: "\<forall>a\<in>set hi. k < keyof (heap s) a"
      by blast
    have sr: "search k s = Some (Inr None)"
      by (rule search_absent [OF r [unfolded xs] lo hi])
    have d: "delete k s = Some (Inr (False, s))"
      by (rule delete_absent [OF r [unfolded xs] lo hi])
    have none: "(Some k, u) \<notin> set (entries s)" for u
      using False by (force simp: linked_def)
    from False sr d none ins getitem_search [OF sr] show ?thesis
      by (simp add: delitem_def)
  next
    case True
    from linked_split [OF r this] obtain lo b hi where xs: "xs = lo @ b # hi"
      and lo: "\<forall>a\<in>set lo. keyof (heap s) a < k" and b: "keyof (heap s) b = k"
      and hi: "\<forall>a\<in>set hi. k < keyof (heap s) a" by blast
    have sr: "search k s = Some (Inr (val (heap s ! b)))"
      by (rule search_present [OF r [unfolded xs] lo b hi])
    from delete_linked [OF r True] obtain s' where d: "delete k s = Some (Inr (True, s'))"
      by blast
    have kb: "key (heap s ! b) = Some k" using rep_key [OF r, of b] xs b by simp
    have bin: "b \<in> set xs" using xs by simp
    have ent: "(Some k, u) \<in> set (entries s) \<longleftrightarrow> u = val (heap s ! b)" for u
    proof
      assume "(Some k, u) \<in> set (entries s)"
      then obtain a where a: "a \<in> set xs" "key (heap s ! a) = Some k" "val (heap s ! a) = u"
        by (auto simp: entries_rep [OF r] items_def)
      from rep_key_inj [OF r a(1) bin] a(2) kb have "a = b" by simp
      with a(3) show "u = val (heap s ! b)" by simp
    next
      assume "u = val (heap s ! b)"
      with kb bin show "(Some k, u) \<in> set (entries s)"
        by (force simp: entries_rep [OF r] items_def)
    qed
    from True sr d ins getitem_search [OF sr] show ?thesis
      by (auto simp: delitem_def ent)
  qed
qed

theorem keyed_access_failures_witness:
  "reachable ex_two \<and> (Some 5, Some 50) \<in> set (entries ex_two) \<and>
   getitem 5 ex_two = Some (Inr (Some 50)) \<and> delitem 5 ex_two \<noteq> Some (Inl KeyError) \<and>
   \<not> linked 9 ex_two \<and> getitem 9 ex_two = Some (Inl KeyError) \<and>
   delitem 9 ex_two = Some (Inl KeyError) \<and> delete 9 ex_two = Some (Inr (False, ex_two))"
proof -
  have e: "(Some 5, Some 50) \<in> set (entries ex_two)" "\<forall>v. (Some 9, Some v) \<notin> set (entries ex_two)"
    and l: "linked 5 ex_two" "\<not> linked 9 ex_two"
    by (simp_all add: linked_def ex_two_entries)
  from keyed_access_failures [OF reachable_ex_two, of 5] e(1) l(1)
  have a: "getitem 5 ex_two = Some (Inr (Some 50))" "delitem 5 ex_two \<noteq> Some (Inl KeyError)"
    by blast+
  from keyed_access_failures [OF reachable_ex_two, of 9] e(2) l(2)
  have b: "getitem 9 ex_two = Some (Inl KeyError)" "delitem 9 ex_two = Some (Inl KeyError)"
    by blast+
  have c: "delete 9 ex_two = Some (Inr (False, ex_two))"
    by (simp add: run_defs ex_two_def)
  from a b c e(1) l(2) reachable_ex_two show ?thesis by simp
qed

text \<open>
  Claim C7, as the specification states it, fails: in the state that \<open>insert(5, None)\<close> leaves
  of a new skip list, the key 5 is linked at level 0, and \<open>__getitem__\<close> raises \<open>KeyError\<close>
  for it all the same.
\<close>

theorem getitem_none_counterexample:
  "reachable ex_none \<and> linked 5 ex_none \<and> getitem 5 ex_none = Some (Inl KeyError)"
proof -
  have "linked 5 ex_none" by (simp add: linked_def entries_def ex_none_display)
  moreover have "getitem 5 ex_none = Some (Inl KeyError)" by (simp add: run_defs ex_none_def)
  ultimately show ?thesis using reachable_ex_none by simp
qed

text \<open>
  Claim C8. For every outcome of the randomness source the level generator returns a level
  in \<open>0..max_level\<close>: the level is the number of leading draws below \<open>p\<close>, capped at
  \<open>max_level\<close>. At the cap the loop stops: it has taken one draw per test of its condition,
  \<open>level + 1\<close> in all, and takes no further one. The function is total, it never fails.
\<close>

theorem random_level_capped:
  "fst (random_level s rnd) \<le> max_level s \<and>
   (\<forall>i < fst (random_level s rnd). rnd !! i < p s) \<and>
   (fst (random_level s rnd) < max_level s \<longrightarrow> \<not> rnd !! fst (random_level s rnd) < p s) \<and>
   snd (random_level s rnd) = sdrop (fst (random_level s rnd) + 1) rnd"
  using random_level_loop_spec [of 0 s rnd] by (simp add: random_level_def)

theorem random_level_capped_witness:
  "fst (random_level (init 2 (1 / 2) :: (nat, nat) skiplist) (sconst 0)) = 2"
proof -
  let ?s = "init 2 (1 / 2) :: (nat, nat) skiplist"
  let ?r = "fst (random_level ?s (sconst 0))"
  from random_level_capped [of ?s "sconst 0"]
  have "?r \<le> 2" and "?r < 2 \<longrightarrow> \<not> (0::real) < 1 / 2"
    by (simp_all add: init_def)
  then show ?thesis by simp
qed

end
